theory Spec2Isabelle
  imports Main "HOL-Library.Word" "HOL-Library.Multiset"
begin

section \<open>Data model of the repair data path (satellite/repair/repairer/ec.go)\<close>

text \<open>
  \<open>storj.NodeID\<close> and \<open>storj.PieceID\<close> are 32-byte arrays. A 32-byte array read
  big-endian is a 256-bit word, and the byte-wise lexicographic order that
  \<open>storj.NodeIDList\<close> sorts by is the unsigned order of that word. The zero value
  \<open>storj.NodeID{}\<close> is the word 0. Byte slices are lists; a nil slice and an empty slice
  are both \<open>[]\<close> (\<open>len\<close> and \<open>bytes.Equal\<close> do not tell them apart).
\<close>

type_synonym NodeID = "256 word"
type_synonym PieceID = "256 word"
type_synonym bytes = "8 word list"
type_synonym int32 = "32 word"

text \<open>The fields of \<open>pb.OrderLimit\<close>, \<open>pb.PieceHash\<close> and \<open>pb.AddressedOrderLimit\<close>
  that ec.go reads (\<open>HashPieceId\<close> is the field \<open>PieceId\<close> of the piece hash). A non-nil
  addressed limit carries its order limit and its address (spec, section 3); a nil slot
  of the limits slice is \<open>None\<close>.\<close>

record OrderLimit =
  SatelliteId :: NodeID
  UplinkPublicKey :: bytes
  StorageNodeId :: NodeID
  PieceId :: PieceID
  SatelliteSignature :: bytes

record PieceHash =
  HashPieceId :: PieceID
  Hash :: bytes
  Signature :: bytes

record AddressedOrderLimit =
  Limit :: OrderLimit
  StorageNodeAddress :: string

record RemotePiece =
  PieceNum :: int32
  NodeId :: NodeID

record Node =
  Id :: NodeID
  Address :: string

subsection \<open>Errors\<close>

text \<open>
  Go errors as values. \<open>Canceled\<close> and \<open>DeadlineExceeded\<close> are the sentinels of package
  context; \<open>Plain\<close> is an error that wraps nothing; \<open>Class c e\<close> is an error of the
  errs class \<open>c\<close> around \<open>e\<close> (what \<open>c.Wrap(e)\<close> builds, and \<open>c.New(msg)\<close> around the
  formatted message); \<open>Errorf m e\<close> is \<open>fmt.Errorf\<close> with a \<open>%w\<close> verb; \<open>Combined\<close> is the
  group that \<open>errs.Combine\<close> returns for two or more errors;
  \<open>IrreparableError piecesAvailable piecesRequired errlist\<close> is the package's
  \<open>irreparableError\<close> struct, with the three fields that lines 170 to 174 set (the
  struct and the class \<open>Error\<close> of the package are declared outside ec.go). Messages
  keep the format string of the source; the rendering of its arguments is not modelled.
\<close>

datatype errclass = RepairerError | ErrPieceHashVerifyFailed | PiecestoreError | OtherClass string

datatype error =
    Canceled
  | DeadlineExceeded
  | Plain string
  | Class errclass error
  | Errorf string error
  | Combined "error list"
  | IrreparableError int32 int32 "error list"

text \<open>\<open>Error.New(msg)\<close> for the package's class \<open>Error\<close>.\<close>

definition Error_New :: "string \<Rightarrow> error" where
  "Error_New msg = Class RepairerError (Plain msg)"

text \<open>\<open>errs.Combine(a, b)\<close>: nil errors are dropped, a single error is returned as it
  is, two errors make a group.\<close>

fun errs_Combine :: "error option \<Rightarrow> error option \<Rightarrow> error option" where
  "errs_Combine None b = b"
| "errs_Combine (Some a) None = Some a"
| "errs_Combine (Some a) (Some b) = Some (Combined [a, b])"

text \<open>\<open>errs.IsFunc(err, is)\<close>: some error reachable from \<open>err\<close> through \<open>Unwrap\<close> or
  \<open>Ungroup\<close> satisfies \<open>is\<close>.\<close>

fun errs_IsFunc :: "(error \<Rightarrow> bool) \<Rightarrow> error \<Rightarrow> bool" where
  "errs_IsFunc p (Class c e) = (p (Class c e) \<or> errs_IsFunc p e)"
| "errs_IsFunc p (Errorf m e) = (p (Errorf m e) \<or> errs_IsFunc p e)"
| "errs_IsFunc p (Combined es) = (p (Combined es) \<or> list_ex (errs_IsFunc p) es)"
| "errs_IsFunc p e = p e"

text \<open>\<open>c.Has(err)\<close>: the error is an error of class \<open>c\<close>, or an error of another class
  around an error that has class \<open>c\<close>. The loop of \<open>Has\<close> goes from an error of a class
  to the error that the class wraps, and returns false at the first error that is not
  an error of a class: it does not look into a group of \<open>errs.Combine\<close> nor into a
  \<open>%w\<close> wrapper.\<close>

fun Has :: "errclass \<Rightarrow> error \<Rightarrow> bool" where
  "Has c (Class c' e) = (c' = c \<or> Has c e)"
| "Has c e = False"

text \<open>\<open>errs2.IsCanceled(err)\<close>: the error is a cancellation, that is
  \<open>context.Canceled\<close> is among the errors reachable from it through \<open>Unwrap\<close> or
  \<open>Ungroup\<close>.\<close>

definition IsCanceled :: "error \<Rightarrow> bool" where
  "IsCanceled err = errs_IsFunc (\<lambda>e. e = Canceled) err"

text \<open>\<open>errors.Is(err, target)\<close> of the standard library: \<open>target\<close> is on the \<open>Unwrap\<close>
  chain of \<open>err\<close>. The chain of a group continues with its first error (its primary
  error).\<close>

fun errors_Is :: "error \<Rightarrow> error \<Rightarrow> bool" where
  "errors_Is (Class c e) t = (Class c e = t \<or> errors_Is e t)"
| "errors_Is (Errorf m e) t = (Errorf m e = t \<or> errors_Is e t)"
| "errors_Is (Combined (e # es)) t = (Combined (e # es) = t \<or> errors_Is e t)"
| "errors_Is e t = (e = t)"

subsection \<open>Signature verification and hashing (packages signing and pkcrypto)\<close>

text \<open>
  The two verification functions of package signing and the hash of package pkcrypto
  are parameters of the model. A verification function returns nil (\<open>None\<close>) when the
  signature is valid and an error otherwise; \<open>NewHash\<close> maps the bytes written to the
  hash writer to the digest that \<open>Sum(nil)\<close> returns. The satellite is identified by its
  signee, here its node ID.
\<close>

type_synonym Signee = NodeID

record signing =
  VerifyUplinkPieceHashSignature :: "bytes \<Rightarrow> PieceHash \<Rightarrow> error option"
  VerifyOrderLimitSignature :: "Signee \<Rightarrow> OrderLimit \<Rightarrow> error option"
  NewHash :: "bytes \<Rightarrow> bytes"

section \<open>Piece verifier\<close>

definition verifyPieceHash ::
  "signing \<Rightarrow> OrderLimit option \<Rightarrow> PieceHash option \<Rightarrow> bytes \<Rightarrow> error option" where
  "verifyPieceHash sg limit hash expectedHash =
     (case limit of
        None \<Rightarrow> Some (Error_New ''invalid arguments'')
      | Some l \<Rightarrow>
         (case hash of
            None \<Rightarrow> Some (Error_New ''invalid arguments'')
          | Some h \<Rightarrow>
              if expectedHash = [] then Some (Error_New ''invalid arguments'')
              else if PieceId l \<noteq> HashPieceId h then Some (Error_New ''piece id changed'')
              else if Hash h \<noteq> expectedHash then
                Some (Error_New ''hash from storage node, %x, does not match calculated hash, %x'')
              else
                (case VerifyUplinkPieceHashSignature sg (UplinkPublicKey l) h of
                   Some err \<Rightarrow> Some (Error_New ''invalid piece hash signature'')
                 | None \<Rightarrow> None)))"

definition verifyOrderLimitSignature :: "signing \<Rightarrow> Signee \<Rightarrow> OrderLimit \<Rightarrow> error option" where
  "verifyOrderLimitSignature sg satellite limit =
     (case VerifyOrderLimitSignature sg satellite limit of
        Some err \<Rightarrow> Some (Error_New ''invalid order limit signature: %v'')
      | None \<Rightarrow> None)"

section \<open>Helpers on the limits slice\<close>

fun nonNilCount :: "AddressedOrderLimit option list \<Rightarrow> int" where
  "nonNilCount [] = 0"
| "nonNilCount (None # limits) = nonNilCount limits"
| "nonNilCount (Some l # limits) = nonNilCount limits + 1"

text \<open>\<open>unique\<close>: the ID list has the zero ID at every nil slot; it is sorted and the
  loop looks for a non-zero ID equal to its left neighbour.\<close>

definition limit_ids :: "AddressedOrderLimit option list \<Rightarrow> NodeID list" where
  "limit_ids limits =
     map (\<lambda>l. case l of None \<Rightarrow> 0 | Some a \<Rightarrow> StorageNodeId (Limit a)) limits"

fun no_identical_neighbors :: "NodeID list \<Rightarrow> bool" where
  "no_identical_neighbors (a # b # ids) =
     (if b \<noteq> 0 \<and> b = a then False else no_identical_neighbors (b # ids))"
| "no_identical_neighbors ids = True"

definition unique :: "AddressedOrderLimit option list \<Rightarrow> bool" where
  "unique limits =
     (if length limits < 2 then True
      else no_identical_neighbors (sort (limit_ids limits)))"

section \<open>Download of one piece\<close>

text \<open>
  What the storage node and the transport do during one call of
  \<open>downloadAndVerifyPiece\<close> is an input of the model: the result of the dial, of
  \<open>ps.Download\<close>, of reading the stream (the bytes that went through the tee reader,
  and the error of \<open>ioutil.ReadAll\<close> or \<open>io.Copy\<close>), of creating and rewinding the
  temporary file, the signed hash and the order limit that \<open>GetHashAndLimit\<close> returns,
  and the results of closing the downloader and the piece store client.
\<close>

record download_env =
  dial_err :: "error option"
  download_err :: "error option"
  read_data :: bytes
  read_err :: "error option"
  tmpfile_err :: "error option"
  seek_err :: "error option"
  sent_hash :: "PieceHash option"
  sent_limit :: "OrderLimit option"
  downloader_close :: "error option"
  ps_close :: "error option"

text \<open>An \<open>io.ReadCloser\<close> is nil (\<open>None\<close>) or a reader positioned at the start of the
  downloaded bytes.\<close>

type_synonym ReadCloser = "bytes option"

record ECRepairer =
  satelliteSignee :: Signee
  inmemory :: bool

text \<open>Lines 220 to 250: the piece is read into memory or into a temporary file. The
  deferred function of the temporary-file branch closes the file on a copy or seek error;
  it assigns to the \<open>err\<close> of its own block, so it does not change what is returned.\<close>

definition readPiece :: "ECRepairer \<Rightarrow> download_env \<Rightarrow> error + bytes" where
  "readPiece ec env =
     (if inmemory ec then
        (case read_err env of Some e \<Rightarrow> Inl e | None \<Rightarrow> Inr (read_data env))
      else
        (case tmpfile_err env of
           Some e \<Rightarrow> Inl e
         | None \<Rightarrow>
            (case read_err env of
               Some e \<Rightarrow> Inl e
             | None \<Rightarrow> (case seek_err env of Some e \<Rightarrow> Inl e | None \<Rightarrow> Inr (read_data env)))))"

text \<open>Lines 254 to 279: the checks on what was downloaded.\<close>

definition verifyDownloaded ::
  "signing \<Rightarrow> ECRepairer \<Rightarrow> int \<Rightarrow> download_env \<Rightarrow> bytes \<Rightarrow> ReadCloser \<times> error option" where
  "verifyDownloaded sg ec pieceSize env pieceBytes =
     (if int (length pieceBytes) \<noteq> pieceSize then
        (None, Some (Error_New ''didn't download the correct amount of data, want %d, got %d''))
      else
        (case sent_hash env of
           None \<Rightarrow> (None, Some (Error_New ''hash was not sent from storagenode''))
         | Some hash \<Rightarrow>
            (case sent_limit env of
               None \<Rightarrow>
                 (None, Some (Error_New ''original order limit was not sent from storagenode''))
             | Some originalLimit \<Rightarrow>
                (case verifyOrderLimitSignature sg (satelliteSignee ec) originalLimit of
                   Some err \<Rightarrow> (None, Some err)
                 | None \<Rightarrow>
                    (case verifyPieceHash sg (Some originalLimit) (Some hash)
                            (NewHash sg pieceBytes) of
                       Some err \<Rightarrow> (None, Some (Class ErrPieceHashVerifyFailed err))
                     | None \<Rightarrow> (Some pieceBytes, None))))))"

text \<open>The whole function, with its deferred calls: \<open>downloader.Close()\<close> is combined
  into the returned error first, \<open>ps.Close()\<close> second.\<close>

definition downloadAndVerifyPiece ::
  "signing \<Rightarrow> ECRepairer \<Rightarrow> int \<Rightarrow> download_env \<Rightarrow> ReadCloser \<times> error option" where
  "downloadAndVerifyPiece sg ec pieceSize env =
     (case dial_err env of
        Some e \<Rightarrow> (None, Some e)
      | None \<Rightarrow>
         (case download_err env of
            Some e \<Rightarrow> (None, errs_Combine (Some e) (ps_close env))
          | None \<Rightarrow>
             (let (r, err) =
                (case readPiece ec env of
                   Inl e \<Rightarrow> (None, Some e)
                 | Inr pieceBytes \<Rightarrow> verifyDownloaded sg ec pieceSize env pieceBytes)
              in (r, errs_Combine (errs_Combine err (downloader_close env)) (ps_close env)))))"

section \<open>Download coordinator: Get\<close>

record get_params =
  limits :: "AddressedOrderLimit option list"
  cachedIPsAndPorts :: "NodeID \<Rightarrow> string"
  RequiredCount :: int
  TotalCount :: int
  pieceSize :: int
  repairer :: ECRepairer
  crypto :: signing
  NewFEC :: "int \<Rightarrow> int \<Rightarrow> error option"

text \<open>
  \<open>cachedIPsAndPorts\<close> is a Go map read with the empty string for a missing key;
  \<open>RequiredCount\<close> and \<open>TotalCount\<close> are what the erasure scheme returns, \<open>pieceSize\<close>
  what \<open>eestream.CalcPieceSize\<close> returns, \<open>NewFEC\<close> the error of \<open>infectious.NewFEC\<close>.
\<close>

text \<open>Lines 123 to 136: the address to dial first, and the retry with the address of
  the limit. The result is the reader, the error, and the node URLs dialled.\<close>

definition fetchPiece ::
  "get_params \<Rightarrow> AddressedOrderLimit \<Rightarrow> download_env \<Rightarrow> download_env
     \<Rightarrow> ReadCloser \<times> error option \<times> (NodeID \<times> string) list" where
  "fetchPiece P limit env1 env2 =
     (let nodeID = StorageNodeId (Limit limit);
          lastIPPort = cachedIPsAndPorts P nodeID;
          triedLastIPPort = (lastIPPort \<noteq> [] \<and> lastIPPort \<noteq> StorageNodeAddress limit);
          address = (if triedLastIPPort then lastIPPort else StorageNodeAddress limit);
          (r, err) = downloadAndVerifyPiece (crypto P) (repairer P) (pieceSize P) env1
      in if triedLastIPPort \<and> (case err of Some e \<Rightarrow> Has PiecestoreError e | None \<Rightarrow> False)
         then
           (let (r2, err2) = downloadAndVerifyPiece (crypto P) (repairer P) (pieceSize P) env2
            in (r2, err2, [(nodeID, address), (nodeID, StorageNodeAddress limit)]))
         else (r, err, [(nodeID, address)]))"

text \<open>
  The state of a call: the variables shared under the lock of \<open>cond\<close>, the position of
  the range loop over the limits, whether \<open>ctx\<close> is done, one entry per slot for the
  goroutine that \<open>limiter.Go\<close> starts for it, and the node URLs dialled so far.

  A worker is \<open>Idle\<close> before \<open>limiter.Go\<close> is called for its limit, \<open>Skipped\<close> when
  \<open>limiter.Go\<close> returned false because the context was done, \<open>Contending\<close> while it is
  in the \<open>for\<close> loop (at its head, or blocked in \<open>cond.Wait\<close>), \<open>Fetching\<close> between
  lines 121 and 137, and \<open>Done\<close> once its function has returned.
\<close>

datatype worker = Idle | Skipped | Contending | Fetching | Done

record get_state =
  successfulPieces :: int
  inProgress :: int
  unusedLimits :: int
  pieceReaders :: "nat \<rightharpoonup> ReadCloser"
  failedPieces :: "RemotePiece list"
  errlist :: "error list"
  workers :: "worker list"
  nextLimit :: nat
  ctxDone :: bool
  dialed :: "(NodeID \<times> string) list"

text \<open>
  The steps of the schedule. \<open>CtxDone\<close>: the context of the call is cancelled or times
  out. \<open>Launch\<close>: the range loop takes its next slot; a nil slot is skipped, for a
  non-nil slot \<open>limiter.Go\<close> returns false when the context is done and otherwise
  starts the worker once fewer than \<open>RequiredCount\<close> workers are running. \<open>Enter i\<close>:
  worker \<open>i\<close> holds the lock and evaluates the head of its loop (lines 103 to 121);
  a worker that calls \<open>cond.Wait\<close> stays \<open>Contending\<close> and evaluates the head again at a
  later \<open>Enter\<close> (in the code after a \<open>Signal\<close> or a \<open>Broadcast\<close>, so every schedule
  of the code is one of these). \<open>Fetched i env1 env2\<close>: the download of worker \<open>i\<close> returns (with
  what the node did at the first and at the second attempt) and the worker runs lines
  137 to 161 under the lock.
\<close>

datatype event = CtxDone | Launch | Enter nat | Fetched nat download_env download_env

definition running :: "get_state \<Rightarrow> int" where
  "running s = int (count_list (workers s) Contending + count_list (workers s) Fetching)"

text \<open>Lines 137 to 161: what a worker does with the result of its download, under the
  lock.\<close>

definition recordFetch ::
  "nat \<Rightarrow> AddressedOrderLimit \<Rightarrow> ReadCloser \<times> error option \<times> (NodeID \<times> string) list
     \<Rightarrow> get_state \<Rightarrow> get_state" where
  "recordFetch i limit res s =
     (case res of
        (pieceReadCloser, Some err, urls) \<Rightarrow>
          s\<lparr>inProgress := inProgress s - 1,
            failedPieces :=
              (if Has ErrPieceHashVerifyFailed err then
                 failedPieces s @
                   [\<lparr>PieceNum = of_nat i, NodeId = StorageNodeId (Limit limit)\<rparr>]
               else failedPieces s),
            errlist := errlist s @ [Errorf ''node id: %s, error: %w'' err],
            workers := (workers s)[i := Done],
            dialed := dialed s @ urls\<rparr>
      | (pieceReadCloser, None, urls) \<Rightarrow>
          s\<lparr>inProgress := inProgress s - 1,
            pieceReaders := (pieceReaders s)(i \<mapsto> pieceReadCloser),
            successfulPieces := successfulPieces s + 1,
            workers := (workers s)[i := Done],
            dialed := dialed s @ urls\<rparr>)"

fun Get_step :: "get_params \<Rightarrow> get_state \<Rightarrow> event \<Rightarrow> get_state option" where
  "Get_step P s CtxDone = Some (s\<lparr>ctxDone := True\<rparr>)"
| "Get_step P s Launch =
     (if nextLimit s < length (limits P) \<and> nextLimit s < length (workers s) then
        (case limits P ! nextLimit s of
           None \<Rightarrow> Some (s\<lparr>nextLimit := nextLimit s + 1\<rparr>)
         | Some limit \<Rightarrow>
             if ctxDone s then
               Some (s\<lparr>workers := (workers s)[nextLimit s := Skipped],
                       nextLimit := nextLimit s + 1\<rparr>)
             else if running s < RequiredCount P then
               Some (s\<lparr>workers := (workers s)[nextLimit s := Contending],
                       nextLimit := nextLimit s + 1\<rparr>)
             else None)
      else None)"
| "Get_step P s (Enter i) =
     (if i < length (workers s) \<and> workers s ! i = Contending then
        (if successfulPieces s \<ge> RequiredCount P then
           Some (s\<lparr>workers := (workers s)[i := Done]\<rparr>)
         else if successfulPieces s + inProgress s + unusedLimits s < RequiredCount P then
           Some (s\<lparr>workers := (workers s)[i := Done]\<rparr>)
         else if successfulPieces s + inProgress s \<ge> RequiredCount P then
           Some s
         else
           Some (s\<lparr>unusedLimits := unusedLimits s - 1,
                   inProgress := inProgress s + 1,
                   workers := (workers s)[i := Fetching]\<rparr>))
      else None)"
| "Get_step P s (Fetched i env1 env2) =
     (if i < length (workers s) \<and> i < length (limits P) \<and> workers s ! i = Fetching then
        (case limits P ! i of
           None \<Rightarrow> None
         | Some limit \<Rightarrow> Some (recordFetch i limit (fetchPiece P limit env1 env2) s))
      else None)"

fun Get_run :: "get_params \<Rightarrow> get_state \<Rightarrow> event list \<Rightarrow> get_state option" where
  "Get_run P s [] = Some s"
| "Get_run P s (ev # evs) =
     (case Get_step P s ev of None \<Rightarrow> None | Some s' \<Rightarrow> Get_run P s' evs)"

text \<open>Lines 69 to 77: the two configuration checks.\<close>

definition Get_config_error :: "get_params \<Rightarrow> error option" where
  "Get_config_error P =
     (if int (length (limits P)) \<noteq> TotalCount P then
        Some (Error_New
          ''number of limits slice (%d) does not match total count (%d) of erasure scheme'')
      else if nonNilCount (limits P) < RequiredCount P then
        Some (Error_New
          ''number of non-nil limits (%d) is less than required count (%d) of erasure scheme'')
      else None)"

definition Get_init :: "get_params \<Rightarrow> get_state" where
  "Get_init P =
     \<lparr>successfulPieces = 0, inProgress = 0, unusedLimits = nonNilCount (limits P),
      pieceReaders = Map.empty, failedPieces = [], errlist = [],
      workers = replicate (length (limits P)) Idle, nextLimit = 0, ctxDone = False,
      dialed = []\<rparr>"

text \<open>\<open>limiter.Wait()\<close> returns once the range loop is over and no worker is running.\<close>

definition Get_finished :: "get_params \<Rightarrow> get_state \<Rightarrow> bool" where
  "Get_finished P s = (nextLimit s = length (limits P) \<and> running s = 0)"

text \<open>What Get returns: the stream, the failed pieces and the error; \<open>dials\<close> is the
  list of node URLs dialled during the call.\<close>

datatype stream = DecodeReaders2 "nat \<rightharpoonup> ReadCloser" int

record get_result =
  stream :: "stream option"
  failed :: "RemotePiece list"
  get_err :: "error option"
  dials :: "(NodeID \<times> string) list"

text \<open>Lines 168 to 188.\<close>

definition Get_return :: "get_params \<Rightarrow> get_state \<Rightarrow> get_result" where
  "Get_return P s =
     (if successfulPieces s < RequiredCount P then
        \<lparr>stream = None, failed = failedPieces s,
         get_err = Some (IrreparableError (word_of_int (successfulPieces s))
                       (word_of_int (RequiredCount P)) (errlist s)),
         dials = dialed s\<rparr>
      else
        (case NewFEC P (RequiredCount P) (TotalCount P) of
           Some e \<Rightarrow>
             \<lparr>stream = None, failed = failedPieces s, get_err = Some (Class RepairerError e),
              dials = dialed s\<rparr>
         | None \<Rightarrow>
             \<lparr>stream = Some (DecodeReaders2 (pieceReaders s) (pieceSize P * RequiredCount P)),
              failed = failedPieces s, get_err = None, dials = dialed s\<rparr>))"

text \<open>
  The state that a schedule leads to. A call that fails a configuration check runs no
  step. \<open>sync2.NewLimiter\<close> makes a channel of capacity \<open>RequiredCount\<close>, which panics
  for a negative capacity: such a call has no run either.
\<close>

definition Get_exec :: "get_params \<Rightarrow> event list \<Rightarrow> get_state option" where
  "Get_exec P evs =
     (if Get_config_error P \<noteq> None \<or> RequiredCount P < 0 then None
      else Get_run P (Get_init P) evs)"

text \<open>
  What Get returns under a schedule: \<open>None\<close> when the schedule is not a complete run
  of the call (a step is not enabled, or the call has not returned at its end, or it
  panicked).
\<close>

definition Get :: "get_params \<Rightarrow> event list \<Rightarrow> get_result option" where
  "Get P evs =
     (case Get_config_error P of
        Some e \<Rightarrow>
          (if evs = [] then Some \<lparr>stream = None, failed = [], get_err = Some e, dials = []\<rparr>
           else None)
      | None \<Rightarrow>
          (case Get_exec P evs of
             None \<Rightarrow> None
           | Some s \<Rightarrow> if Get_finished P s then Some (Get_return P s) else None))"

section \<open>Upload coordinator: Repair\<close>

text \<open>
  What the storage node and the transport do during one call of \<open>putPiece\<close>: the
  result of the dial, the hash and the error that \<open>ps.UploadReader\<close> returns, and the
  results of closing the piece store client and the piece reader.
\<close>

record put_env =
  put_dial_err :: "error option"
  upload_hash :: "PieceHash option"
  upload_err :: "error option"
  put_ps_close :: "error option"
  data_close :: "error option"

text \<open>
  \<open>putPiece\<close>, with \<open>ctxErr\<close> the value of \<open>ctx.Err()\<close> at line 466. The deferred calls
  combine \<open>ps.Close()\<close> and then \<open>data.Close()\<close> into the returned error. The third
  component is the list of node URLs dialled.
\<close>

definition putPiece ::
  "error option \<Rightarrow> AddressedOrderLimit option \<Rightarrow> put_env
     \<Rightarrow> PieceHash option \<times> error option \<times> (NodeID \<times> string) list" where
  "putPiece ctxErr limit env =
     (case limit of
        None \<Rightarrow> (None, errs_Combine None (data_close env), [])
      | Some l \<Rightarrow>
         (let url = (StorageNodeId (Limit l), StorageNodeAddress l) in
          case put_dial_err env of
            Some e \<Rightarrow> (None, errs_Combine (Some e) (data_close env), [url])
          | None \<Rightarrow>
             (let err =
                (case upload_err env of
                   None \<Rightarrow> None
                 | Some e \<Rightarrow>
                     if (case ctxErr of Some c \<Rightarrow> errors_Is c Canceled | None \<Rightarrow> False)
                     then errs_Combine (Some Canceled) (Some e)
                     else Some e)
              in (upload_hash env,
                  errs_Combine (errs_Combine err (put_ps_close env)) (data_close env),
                  [url]))))"

record repair_params =
  repairLimits :: "AddressedOrderLimit option list"
  rsTotalCount :: int
  successfulNeeded :: int
  EncodeReader2 :: "error option"

text \<open>\<open>rsTotalCount\<close> is what the redundancy strategy returns, \<open>EncodeReader2\<close> the
  error of \<open>eestream.EncodeReader2\<close>.\<close>

text \<open>The struct \<open>info\<close> sent on the channel.\<close>

record info =
  info_i :: nat
  info_err :: "error option"
  info_hash :: "PieceHash option"

text \<open>
  The state of a call after the goroutines are started: which tasks have sent their
  result, everything sent on the channel \<open>infos\<close> in order, how many results the loop has
  received, \<open>ctx.Err()\<close> and \<open>psCtx.Err()\<close>, the three counters, the two result slices,
  and the node URLs dialled so far.
\<close>

record repair_state =
  reported :: "bool list"
  infos :: "info list"
  received :: nat
  ctxErr :: "error option"
  psCtxErr :: "error option"
  successfulCount :: int32
  failureCount :: int32
  cancellationCount :: int32
  successfulNodes :: "Node option list"
  successfulHashes :: "PieceHash option list"
  uploadsDialed :: "(NodeID \<times> string) list"

text \<open>
  The steps of the schedule. \<open>ParentDone e\<close>: the context of the call is done with
  error \<open>e\<close> (cancelled or timed out), and with it the derived \<open>psCtx\<close>. \<open>TimerFired\<close>:
  the function of \<open>time.AfterFunc\<close> runs. \<open>PutPiece i env\<close>: the goroutine of slot \<open>i\<close>
  finishes \<open>putPiece\<close> and sends its result. \<open>Receive\<close>: one iteration of the loop over
  the channel (lines 367 to 402).
\<close>

datatype repair_event = ParentDone error | TimerFired | PutPiece nat put_env | Receive

text \<open>\<open>cancel()\<close> of \<open>context.WithCancel\<close>: the first cause stays.\<close>

definition cancel :: "repair_state \<Rightarrow> repair_state" where
  "cancel s = (case psCtxErr s of None \<Rightarrow> s\<lparr>psCtxErr := Some Canceled\<rparr> | Some e \<Rightarrow> s)"

fun Repair_step :: "repair_params \<Rightarrow> repair_state \<Rightarrow> repair_event \<Rightarrow> repair_state option" where
  "Repair_step P s (ParentDone e) =
     (if e = Canceled \<or> e = DeadlineExceeded then
        Some (s\<lparr>ctxErr := (case ctxErr s of None \<Rightarrow> Some e | Some e' \<Rightarrow> Some e'),
                psCtxErr := (case psCtxErr s of None \<Rightarrow> Some e | Some e' \<Rightarrow> Some e')\<rparr>)
      else None)"
| "Repair_step P s TimerFired =
     (if (case ctxErr s of Some c \<Rightarrow> errors_Is c Canceled | None \<Rightarrow> False) then Some s
      else Some (cancel s))"
| "Repair_step P s (PutPiece i env) =
     (if i < length (repairLimits P) \<and> i < length (reported s) \<and> \<not> reported s ! i then
        (case putPiece (psCtxErr s) (repairLimits P ! i) env of
           (hash, err, urls) \<Rightarrow>
             Some (s\<lparr>reported := (reported s)[i := True],
                     infos := infos s @ [\<lparr>info_i = i, info_err = err, info_hash = hash\<rparr>],
                     uploadsDialed := uploadsDialed s @ urls\<rparr>))
      else None)"
| "Repair_step P s Receive =
     (if received s < length (repairLimits P) \<and> received s < length (infos s) then
        (let info = infos s ! received s; s1 = s\<lparr>received := received s + 1\<rparr> in
         if info_i info < length (repairLimits P) then
           (case repairLimits P ! info_i info of
              None \<Rightarrow> Some s1
            | Some limit \<Rightarrow>
               (case info_err info of
                  Some e \<Rightarrow>
                    if \<not> IsCanceled e then Some (s1\<lparr>failureCount := failureCount s + 1\<rparr>)
                    else Some (s1\<lparr>cancellationCount := cancellationCount s + 1\<rparr>)
                | None \<Rightarrow>
                   (let s2 = s1\<lparr>successfulNodes := (successfulNodes s)
                                   [info_i info := Some \<lparr>Id = StorageNodeId (Limit limit),
                                                        Address = StorageNodeAddress limit\<rparr>],
                                 successfulHashes := (successfulHashes s)
                                   [info_i info := info_hash info],
                                 successfulCount := successfulCount s + 1\<rparr>
                    in if sint (word_of_int (successfulNeeded P) :: int32)
                            \<le> sint (successfulCount s2)
                       then Some (cancel s2) else Some s2)))
         else None)
      else None)"

fun Repair_run :: "repair_params \<Rightarrow> repair_state \<Rightarrow> repair_event list \<Rightarrow> repair_state option" where
  "Repair_run P s [] = Some s"
| "Repair_run P s (ev # evs) =
     (case Repair_step P s ev of None \<Rightarrow> None | Some s' \<Rightarrow> Repair_run P s' evs)"

text \<open>Lines 315 to 322: the two configuration checks.\<close>

definition Repair_config_error :: "repair_params \<Rightarrow> error option" where
  "Repair_config_error P =
     (if int (length (repairLimits P)) \<noteq> rsTotalCount P then
        Some (Error_New
          ''size of limits slice (%d) does not match total count (%d) of erasure scheme'')
      else if \<not> unique (repairLimits P) then
        Some (Error_New ''duplicated nodes are not allowed'')
      else None)"

definition Repair_init :: "repair_params \<Rightarrow> repair_state" where
  "Repair_init P =
     \<lparr>reported = replicate (length (repairLimits P)) False, infos = [], received = 0,
      ctxErr = None, psCtxErr = None,
      successfulCount = 0, failureCount = 0, cancellationCount = 0,
      successfulNodes = replicate (length (repairLimits P)) None,
      successfulHashes = replicate (length (repairLimits P)) None,
      uploadsDialed = []\<rparr>"

text \<open>The loop over the limits is over once it has received one result per slot.\<close>

definition Repair_finished :: "repair_params \<Rightarrow> repair_state \<Rightarrow> bool" where
  "Repair_finished P s = (received s = length (repairLimits P))"

text \<open>What Repair returns; \<open>upload_dials\<close> is the list of node URLs dialled during the
  call and \<open>encoded\<close> tells whether \<open>eestream.EncodeReader2\<close> was called. A nil slice
  is the empty list.\<close>

record repair_result =
  nodes :: "Node option list"
  hashes :: "PieceHash option list"
  repair_err :: "error option"
  upload_dials :: "(NodeID \<times> string) list"
  encoded :: bool

text \<open>Lines 405 to 430: the deferred function replaces the error when the context of
  the call is done.\<close>

definition Repair_return :: "repair_params \<Rightarrow> repair_state \<Rightarrow> repair_result" where
  "Repair_return P s =
     (let r =
        (if successfulCount s = 0 then
           \<lparr>nodes = [], hashes = [], repair_err = Some (Error_New ''repair to all nodes failed''),
            upload_dials = uploadsDialed s, encoded = True\<rparr>
         else
           \<lparr>nodes = successfulNodes s, hashes = successfulHashes s, repair_err = None,
            upload_dials = uploadsDialed s, encoded = True\<rparr>)
      in if ctxErr s \<noteq> None then r\<lparr>repair_err := Some (Error_New ''repair cancelled'')\<rparr> else r)"

text \<open>The state that a schedule leads to. A call that fails a configuration check or
  whose encoder fails starts no goroutine and runs no step.\<close>

definition Repair_exec :: "repair_params \<Rightarrow> repair_event list \<Rightarrow> repair_state option" where
  "Repair_exec P evs =
     (if Repair_config_error P \<noteq> None \<or> EncodeReader2 P \<noteq> None then None
      else Repair_run P (Repair_init P) evs)"

text \<open>What Repair returns under a schedule: \<open>None\<close> when the schedule is not a
  complete run of the call.\<close>

definition Repair :: "repair_params \<Rightarrow> repair_event list \<Rightarrow> repair_result option" where
  "Repair P evs =
     (case Repair_config_error P of
        Some e \<Rightarrow>
          (if evs = [] then
             Some \<lparr>nodes = [], hashes = [], repair_err = Some e, upload_dials = [],
                   encoded = False\<rparr>
           else None)
      | None \<Rightarrow>
         (case EncodeReader2 P of
            Some e \<Rightarrow>
              (if evs = [] then
                 Some \<lparr>nodes = [], hashes = [], repair_err = Some e, upload_dials = [],
                       encoded = True\<rparr>
               else None)
          | None \<Rightarrow>
             (case Repair_exec P evs of
                None \<Rightarrow> None
              | Some s \<Rightarrow> if Repair_finished P s then Some (Repair_return P s) else None)))"

section \<open>Concrete scenarios\<close>

text \<open>
  A toy signature scheme and a toy hash for the concrete runs below: the signature of a
  piece hash is the public key followed by the hash bytes, an order limit is signed by
  the satellite when its signature is the byte 1, and the digest of a byte string is its
  byte sum followed by its length.
\<close>

definition demo_signing :: signing where
  "demo_signing =
     \<lparr>VerifyUplinkPieceHashSignature =
        (\<lambda>key h. if Signature h = key @ Hash h then None
                  else Some (Plain ''signature is not valid'')),
      VerifyOrderLimitSignature =
        (\<lambda>sat l. if SatelliteId l = sat \<and> SatelliteSignature l = [1] then None
                  else Some (Plain ''signature is not valid'')),
      NewHash = (\<lambda>bs. [foldr (+) bs 0, of_nat (length bs)])\<rparr>"

definition demo_order_limit :: "NodeID \<Rightarrow> OrderLimit" where
  "demo_order_limit n =
     \<lparr>SatelliteId = 9, UplinkPublicKey = [7], StorageNodeId = n, PieceId = 10 + n,
      SatelliteSignature = [1]\<rparr>"

definition demo_limit :: "NodeID \<Rightarrow> AddressedOrderLimit" where
  "demo_limit n = \<lparr>Limit = demo_order_limit n, StorageNodeAddress = ''node:7777''\<rparr>"

text \<open>An honest node: it serves the two bytes of the piece, the hash of these bytes
  signed with the uplink key, and the order limit it was given.\<close>

definition honest_node :: "NodeID \<Rightarrow> download_env" where
  "honest_node n =
     \<lparr>dial_err = None, download_err = None, read_data = [3, 4], read_err = None,
      tmpfile_err = None, seek_err = None,
      sent_hash = Some \<lparr>HashPieceId = 10 + n, Hash = [7, 2], Signature = [7, 7, 2]\<rparr>,
      sent_limit = Some (demo_order_limit n),
      downloader_close = None, ps_close = None\<rparr>"

text \<open>A node whose signed hash is not the hash of the bytes it serves, a node that
  echoes an order limit the satellite did not sign, and a node that cannot be dialled.\<close>

definition tampering_node :: "NodeID \<Rightarrow> download_env" where
  "tampering_node n = (honest_node n)\<lparr>read_data := [3, 5]\<rparr>"

definition forging_node :: "NodeID \<Rightarrow> download_env" where
  "forging_node n =
     (honest_node n)\<lparr>sent_limit := Some ((demo_order_limit n)\<lparr>SatelliteSignature := [2]\<rparr>)\<rparr>"

definition offline_node :: download_env where
  "offline_node = (honest_node 0)\<lparr>dial_err := Some (Class PiecestoreError (Plain ''dial failed''))\<rparr>"

definition demo_repairer :: ECRepairer where
  "demo_repairer = \<lparr>satelliteSignee = 9, inmemory = True\<rparr>"

text \<open>A two-of-three scheme with pieces of two bytes, over the given limits.\<close>

definition demo_get :: "AddressedOrderLimit option list \<Rightarrow> get_params" where
  "demo_get ls =
     \<lparr>limits = ls, cachedIPsAndPorts = (\<lambda>n. []), RequiredCount = 2, TotalCount = 3,
      pieceSize = 2, repairer = demo_repairer, crypto = demo_signing,
      NewFEC = (\<lambda>k n. None)\<rparr>"

text \<open>Three limits; the first node tampers, the other two are honest: Get succeeds.\<close>

definition run_tampered_ok :: "event list" where
  "run_tampered_ok =
     [Launch, Launch, Enter 0, Enter 1, Fetched 0 (tampering_node 1) (tampering_node 1),
      Launch, Enter 2, Fetched 1 (honest_node 2) (honest_node 2),
      Fetched 2 (honest_node 3) (honest_node 3)]"

text \<open>Two limits and a nil slot; the first node misbehaves, the second is honest: Get
  fails with one piece of two.\<close>

definition run_short :: "download_env \<Rightarrow> event list" where
  "run_short env =
     [Launch, Launch, Launch, Enter 0, Enter 1, Fetched 0 env env,
      Fetched 1 (honest_node 2) (honest_node 2)]"

definition demo_three :: get_params where
  "demo_three = demo_get [Some (demo_limit 1), Some (demo_limit 2), Some (demo_limit 3)]"

definition demo_two :: get_params where
  "demo_two = demo_get [Some (demo_limit 1), Some (demo_limit 2), None]"

text \<open>A tampering node and a forging node whose downloader fails to close: the stream
  returns an error of the class of the piece store client.\<close>

definition closing_tamperer :: "NodeID \<Rightarrow> download_env" where
  "closing_tamperer n =
     (tampering_node n)\<lparr>downloader_close :=
        Some (Class PiecestoreError (Plain ''stream closed''))\<rparr>"

definition closing_forger :: "NodeID \<Rightarrow> download_env" where
  "closing_forger n =
     (forging_node n)\<lparr>downloader_close :=
        Some (Class PiecestoreError (Plain ''stream closed''))\<rparr>"

text \<open>The run of three limits that succeeds, with any node at slot 0.\<close>

definition run_three :: "download_env \<Rightarrow> event list" where
  "run_three env =
     [Launch, Launch, Enter 0, Enter 1, Fetched 0 env env,
      Launch, Enter 2, Fetched 1 (honest_node 2) (honest_node 2),
      Fetched 2 (honest_node 3) (honest_node 3)]"

text \<open>The scheme of two limits and a nil slot when the satellite has a cached address
  for every node, which differs from the address of the limit, and the run in which the
  node of slot 0 behaves one way at the cached address and another way at a retry.\<close>

definition demo_cached :: get_params where
  "demo_cached = demo_two\<lparr>cachedIPsAndPorts := (\<lambda>n. ''cached:7777'')\<rparr>"

definition run_retry :: "download_env \<Rightarrow> download_env \<Rightarrow> event list" where
  "run_retry env1 env2 =
     [Launch, Launch, Launch, Enter 0, Enter 1, Fetched 0 env1 env2,
      Fetched 1 (honest_node 2) (honest_node 2)]"

section \<open>Reading a schedule\<close>

text \<open>
  The downloads that a schedule of Get completes: for each \<open>Fetched\<close> step the slot,
  its limit, and the reader and the error that the worker is left with.
\<close>

definition fetch_of ::
  "get_params \<Rightarrow> event \<Rightarrow> (nat \<times> AddressedOrderLimit \<times> ReadCloser \<times> error option) option" where
  "fetch_of P ev =
     (case ev of
        Fetched i env1 env2 \<Rightarrow>
          (if i < length (limits P) then
             (case limits P ! i of
                None \<Rightarrow> None
              | Some l \<Rightarrow> (case fetchPiece P l env1 env2 of (r, e, urls) \<Rightarrow> Some (i, l, r, e)))
           else None)
      | _ \<Rightarrow> None)"

definition fetches ::
  "get_params \<Rightarrow> event list \<Rightarrow> (nat \<times> AddressedOrderLimit \<times> ReadCloser \<times> error option) list" where
  "fetches P evs = List.map_filter (fetch_of P) evs"

text \<open>The number of downloads that succeeded, the error recorded for each download that
  failed, and the record made for each download that failed with an error of class
  \<open>ErrPieceHashVerifyFailed\<close>.\<close>

definition successes :: "get_params \<Rightarrow> event list \<Rightarrow> nat" where
  "successes P evs = length (filter (\<lambda>(i, l, r, e). e = None) (fetches P evs))"

definition sub_errors :: "get_params \<Rightarrow> event list \<Rightarrow> error list" where
  "sub_errors P evs =
     concat (map (\<lambda>(i, l, r, e). case e of None \<Rightarrow> []
                                 | Some x \<Rightarrow> [Errorf ''node id: %s, error: %w'' x])
                 (fetches P evs))"

definition verification_failures :: "get_params \<Rightarrow> event list \<Rightarrow> RemotePiece list" where
  "verification_failures P evs =
     concat (map (\<lambda>(i, l, r, e). case e of None \<Rightarrow> []
                                 | Some x \<Rightarrow>
                                     if Has ErrPieceHashVerifyFailed x
                                     then [\<lparr>PieceNum = of_nat i, NodeId = StorageNodeId (Limit l)\<rparr>]
                                     else [])
                 (fetches P evs))"

text \<open>
  The attempt whose result a worker keeps: the second one when the cached address was
  tried first and failed with an error of class \<open>piecestore.Error\<close>, the first one
  otherwise.
\<close>

definition retried :: "get_params \<Rightarrow> AddressedOrderLimit \<Rightarrow> download_env \<Rightarrow> bool" where
  "retried P l env1 =
     (cachedIPsAndPorts P (StorageNodeId (Limit l)) \<noteq> []
      \<and> cachedIPsAndPorts P (StorageNodeId (Limit l)) \<noteq> StorageNodeAddress l
      \<and> (case snd (downloadAndVerifyPiece (crypto P) (repairer P) (pieceSize P) env1) of
            Some e \<Rightarrow> Has PiecestoreError e
          | None \<Rightarrow> False))"

definition keptAttempt ::
  "get_params \<Rightarrow> AddressedOrderLimit \<Rightarrow> download_env \<Rightarrow> download_env \<Rightarrow> download_env" where
  "keptAttempt P l env1 env2 = (if retried P l env1 then env2 else env1)"

text \<open>
  A download reaches the checks of the proofs the node sent when the dial, the download
  and the read succeed, the size is right and the node sent a hash and a limit. It fails
  the order-limit check when the satellite signature of the echoed limit does not verify
  (line 268), and it fails the piece-hash check when that signature verifies and
  \<open>verifyPieceHash\<close> rejects (line 274).
\<close>

definition proofs_sent ::
  "ECRepairer \<Rightarrow> int \<Rightarrow> download_env \<Rightarrow> (bytes \<times> PieceHash \<times> OrderLimit) option" where
  "proofs_sent ec sz env =
     (if dial_err env = None \<and> download_err env = None then
        (case readPiece ec env of
           Inl e \<Rightarrow> None
         | Inr pieceBytes \<Rightarrow>
            (if int (length pieceBytes) = sz then
               (case sent_hash env of
                  None \<Rightarrow> None
                | Some h \<Rightarrow>
                   (case sent_limit env of None \<Rightarrow> None | Some ol \<Rightarrow> Some (pieceBytes, h, ol)))
             else None))
      else None)"

definition orderLimitCheckFails :: "signing \<Rightarrow> ECRepairer \<Rightarrow> int \<Rightarrow> download_env \<Rightarrow> bool" where
  "orderLimitCheckFails sg ec sz env =
     (case proofs_sent ec sz env of
        None \<Rightarrow> False
      | Some (pieceBytes, h, ol) \<Rightarrow> verifyOrderLimitSignature sg (satelliteSignee ec) ol \<noteq> None)"

definition pieceHashCheckFails :: "signing \<Rightarrow> ECRepairer \<Rightarrow> int \<Rightarrow> download_env \<Rightarrow> bool" where
  "pieceHashCheckFails sg ec sz env =
     (case proofs_sent ec sz env of
        None \<Rightarrow> False
      | Some (pieceBytes, h, ol) \<Rightarrow>
          verifyOrderLimitSignature sg (satelliteSignee ec) ol = None
          \<and> verifyPieceHash sg (Some ol) (Some h) (NewHash sg pieceBytes) \<noteq> None)"

text \<open>The attempts that a worker makes: the first one, and the second one when the first
  is retried. A download closes cleanly when closing the downloader and closing the
  client return no error.\<close>

definition attempts ::
  "get_params \<Rightarrow> AddressedOrderLimit \<Rightarrow> download_env \<Rightarrow> download_env \<Rightarrow> download_env list" where
  "attempts P l env1 env2 = (if retried P l env1 then [env1, env2] else [env1])"

definition closes_cleanly :: "download_env \<Rightarrow> bool" where
  "closes_cleanly env = (downloader_close env = None \<and> ps_close env = None)"

text \<open>The invariants of the shared state of Get.\<close>

definition inv_counts :: "get_params \<Rightarrow> get_state \<Rightarrow> bool" where
  "inv_counts P s =
     (inProgress s = int (count_list (workers s) Fetching)
      \<and> successfulPieces s + inProgress s \<le> RequiredCount P
      \<and> running s \<le> RequiredCount P)"

definition inv_workers :: "get_params \<Rightarrow> get_state \<Rightarrow> bool" where
  "inv_workers P s =
     (length (workers s) = length (limits P)
      \<and> nextLimit s \<le> length (limits P)
      \<and> (\<forall>j. nextLimit s \<le> j \<longrightarrow> j < length (workers s) \<longrightarrow> workers s ! j = Idle)
      \<and> (\<forall>j. j < length (workers s) \<longrightarrow> workers s ! j \<noteq> Idle \<longrightarrow> limits P ! j \<noteq> None))"

definition inv_readers :: "get_state \<Rightarrow> bool" where
  "inv_readers s =
     (finite (dom (pieceReaders s))
      \<and> successfulPieces s = int (card (dom (pieceReaders s)))
      \<and> (\<forall>i. pieceReaders s i \<noteq> None \<longrightarrow> i < length (workers s) \<and> workers s ! i = Done))"

definition Get_inv :: "get_params \<Rightarrow> get_state \<Rightarrow> bool" where
  "Get_inv P s = (inv_workers P s \<and> inv_counts P s \<and> inv_readers s)"

text \<open>How far a state of Get is from the return: three for each slot that the range
  loop has not taken, two for each worker in its loop, one for each download in progress.\<close>

definition todo :: "get_params \<Rightarrow> get_state \<Rightarrow> nat" where
  "todo P s =
     3 * (length (limits P) - nextLimit s) + 2 * count_list (workers s) Contending
       + count_list (workers s) Fetching"

section \<open>Reading the results of Repair\<close>

text \<open>
  The branch that the loop over the channel takes for a result (lines 369 to 395): the
  result of a nil slot is ignored, an error that is not a cancellation is a failure, an
  error that is a cancellation is a cancellation, and no error is a success.
\<close>

datatype category = Ignored | Succeeded | Failed | Cancelled

definition categorize :: "repair_params \<Rightarrow> info \<Rightarrow> category" where
  "categorize P x =
     (if info_i x < length (repairLimits P) then
        (case repairLimits P ! info_i x of
           None \<Rightarrow> Ignored
         | Some limit \<Rightarrow>
            (case info_err x of
               Some e \<Rightarrow> if \<not> IsCanceled e then Failed else Cancelled
             | None \<Rightarrow> Succeeded))
      else Ignored)"

definition count_cat :: "repair_params \<Rightarrow> category \<Rightarrow> info list \<Rightarrow> nat" where
  "count_cat P c xs = length (filter (\<lambda>x. categorize P x = c) xs)"

text \<open>The node record that line 390 builds for slot \<open>j\<close>.\<close>

definition node_of :: "repair_params \<Rightarrow> nat \<Rightarrow> Node option" where
  "node_of P j =
     (case repairLimits P ! j of
        None \<Rightarrow> None
      | Some limit \<Rightarrow> Some \<lparr>Id = StorageNodeId (Limit limit), Address = StorageNodeAddress limit\<rparr>)"

text \<open>The two result slices after the loop has handled the results \<open>xs\<close> in this
  order.\<close>

fun nodes_after :: "repair_params \<Rightarrow> info list \<Rightarrow> Node option list \<Rightarrow> Node option list" where
  "nodes_after P [] a = a"
| "nodes_after P (x # xs) a =
     nodes_after P xs
       (if categorize P x = Succeeded then a[info_i x := node_of P (info_i x)] else a)"

fun hashes_after ::
  "repair_params \<Rightarrow> info list \<Rightarrow> PieceHash option list \<Rightarrow> PieceHash option list" where
  "hashes_after P [] a = a"
| "hashes_after P (x # xs) a =
     hashes_after P xs
       (if categorize P x = Succeeded then a[info_i x := info_hash x] else a)"

text \<open>The invariant of the state of Repair: every task reports at most once, and the
  counters and the result slices are those of the results received so far.\<close>

definition Repair_inv :: "repair_params \<Rightarrow> repair_state \<Rightarrow> bool" where
  "Repair_inv P s =
     (length (reported s) = length (repairLimits P)
      \<and> distinct (map info_i (infos s))
      \<and> list_all (\<lambda>x. info_i x < length (repairLimits P) \<and> reported s ! info_i x) (infos s)
      \<and> count_list (reported s) True = length (infos s)
      \<and> received s \<le> length (infos s)
      \<and> successfulCount s = of_nat (count_cat P Succeeded (take (received s) (infos s)))
      \<and> failureCount s = of_nat (count_cat P Failed (take (received s) (infos s)))
      \<and> cancellationCount s = of_nat (count_cat P Cancelled (take (received s) (infos s)))
      \<and> successfulNodes s =
          nodes_after P (take (received s) (infos s)) (replicate (length (repairLimits P)) None)
      \<and> successfulHashes s =
          hashes_after P (take (received s) (infos s)) (replicate (length (repairLimits P)) None))"

text \<open>Concrete uploads: a node that accepts the piece and returns a signed hash, and a
  node whose upload fails.\<close>

definition accepting_node :: put_env where
  "accepting_node =
     \<lparr>put_dial_err = None,
      upload_hash = Some \<lparr>HashPieceId = 11, Hash = [7, 2], Signature = [7, 7, 2]\<rparr>,
      upload_err = None, put_ps_close = None, data_close = None\<rparr>"

definition failing_node :: put_env where
  "failing_node =
     accepting_node\<lparr>upload_hash := None, upload_err := Some (Plain ''connection reset'')\<rparr>"

definition demo_repair :: "AddressedOrderLimit option list \<Rightarrow> repair_params" where
  "demo_repair ls =
     \<lparr>repairLimits = ls, rsTotalCount = int (length ls), successfulNeeded = 1,
      EncodeReader2 = None\<rparr>"

text \<open>Four slots, one of them nil, with a success threshold of one: the upload of slot 3
  fails, the upload of slot 0 succeeds and cancels the others, and the upload of slot 2
  fails after the cancellation.\<close>

definition demo_upload :: repair_params where
  "demo_upload =
     demo_repair [Some (demo_limit 1), None, Some (demo_limit 2), Some (demo_limit 3)]"

definition run_upload :: "repair_event list" where
  "run_upload =
     [PutPiece 3 failing_node, PutPiece 0 accepting_node, PutPiece 1 accepting_node,
      Receive, Receive, Receive, PutPiece 2 failing_node, Receive]"

text \<open>Two slots with the zero node ID, both accepted.\<close>

definition demo_zero_ids :: repair_params where
  "demo_zero_ids = demo_repair [Some (demo_limit 0), Some (demo_limit 0)]"

definition run_zero_ids :: "repair_event list" where
  "run_zero_ids = [PutPiece 0 accepting_node, PutPiece 1 accepting_node, Receive, Receive]"

section \<open>The piece verifier\<close>

text \<open>
  C5, as the code has it. \<open>verifyPieceHash\<close> is a function of the order limit, the
  signed hash and the computed hash bytes. It succeeds exactly when both pointers are
  non-nil, the computed hash is not empty, the piece IDs agree, the hash bytes agree and
  the signature of the hash verifies against the uplink public key of the limit; each of
  its four errors is returned exactly when its condition is the first one violated, in
  this order: invalid arguments, piece id changed, hash mismatch, invalid piece hash
  signature. The signature of the order limit is not among its conditions: the result is
  the same whatever \<open>VerifyOrderLimitSignature\<close> is. That signature is checked by
  \<open>verifyOrderLimitSignature\<close>, which succeeds exactly when it verifies.
\<close>

theorem verifyPieceHash_conditions:
  "(verifyPieceHash sg limit hash expectedHash = None) =
     (\<exists>l h. limit = Some l \<and> hash = Some h \<and> expectedHash \<noteq> [] \<and> PieceId l = HashPieceId h
        \<and> Hash h = expectedHash
        \<and> VerifyUplinkPieceHashSignature sg (UplinkPublicKey l) h = None)
   \<and> (verifyPieceHash sg limit hash expectedHash = Some (Error_New ''invalid arguments'')) =
     (limit = None \<or> hash = None \<or> expectedHash = [])
   \<and> (verifyPieceHash sg limit hash expectedHash = Some (Error_New ''piece id changed'')) =
     (\<exists>l h. limit = Some l \<and> hash = Some h \<and> expectedHash \<noteq> [] \<and> PieceId l \<noteq> HashPieceId h)
   \<and> (verifyPieceHash sg limit hash expectedHash =
        Some (Error_New ''hash from storage node, %x, does not match calculated hash, %x'')) =
     (\<exists>l h. limit = Some l \<and> hash = Some h \<and> expectedHash \<noteq> [] \<and> PieceId l = HashPieceId h
        \<and> Hash h \<noteq> expectedHash)
   \<and> (verifyPieceHash sg limit hash expectedHash =
        Some (Error_New ''invalid piece hash signature'')) =
     (\<exists>l h. limit = Some l \<and> hash = Some h \<and> expectedHash \<noteq> [] \<and> PieceId l = HashPieceId h
        \<and> Hash h = expectedHash
        \<and> VerifyUplinkPieceHashSignature sg (UplinkPublicKey l) h \<noteq> None)
   \<and> verifyPieceHash (sg\<lparr>VerifyOrderLimitSignature := v\<rparr>) limit hash expectedHash =
       verifyPieceHash sg limit hash expectedHash
   \<and> (verifyOrderLimitSignature sg satellite ol = None) =
       (VerifyOrderLimitSignature sg satellite ol = None)"
  by (auto simp: verifyPieceHash_def verifyOrderLimitSignature_def Error_New_def
           split: option.splits)

text \<open>
  C5 as stated fails: a limit whose satellite signature does not verify, with a matching
  piece ID, a matching hash and a valid hash signature, is accepted by
  \<open>verifyPieceHash\<close>.
\<close>

theorem verifyPieceHash_accepts_unsigned_limit:
  "verifyPieceHash demo_signing
     (Some ((demo_order_limit 1)\<lparr>SatelliteSignature := [2]\<rparr>))
     (Some \<lparr>HashPieceId = 11, Hash = [7, 2], Signature = [7, 7, 2]\<rparr>) [7, 2] = None
   \<and> VerifyOrderLimitSignature demo_signing 9
       ((demo_order_limit 1)\<lparr>SatelliteSignature := [2]\<rparr>) \<noteq> None"
  by (simp add: verifyPieceHash_def demo_signing_def demo_order_limit_def)

section \<open>Duplicate destinations\<close>

lemma no_identical_neighbors_sorted:
  "sorted ids \<Longrightarrow> no_identical_neighbors ids = distinct (filter (\<lambda>x. x \<noteq> 0) ids)"
proof (induction ids rule: no_identical_neighbors.induct)
  case (1 a b ids)
  show ?case
  proof (cases "b \<noteq> 0 \<and> b = a")
    case True
    then show ?thesis by auto
  next
    case False
    from "1.prems" have sorted_tl: "sorted (b # ids)" and le: "\<forall>x\<in>set (b # ids). a \<le> x"
      by simp_all
    have ih: "no_identical_neighbors (b # ids) = distinct (filter (\<lambda>x. x \<noteq> 0) (b # ids))"
      using "1.IH" False sorted_tl by blast
    have fresh: "a \<noteq> 0 \<Longrightarrow> a \<notin> set (b # ids)"
    proof
      assume a0: "a \<noteq> 0" and mem: "a \<in> set (b # ids)"
      from False a0 have "a \<noteq> b" by auto
      with mem have "a \<in> set ids" by simp
      with sorted_tl have "b \<le> a" by simp
      moreover from le have "a \<le> b" by simp
      ultimately show False using \<open>a \<noteq> b\<close> by simp
    qed
    show ?thesis
    proof (cases "a = 0")
      case True
      with False ih show ?thesis by simp
    next
      case a0: False
      with fresh have "a \<notin> set (b # ids)" by simp
      then have "a \<notin> set (filter (\<lambda>x. x \<noteq> 0) (b # ids))" by simp
      with False ih a0 show ?thesis by auto
    qed
  qed
qed simp_all

lemma distinct_filter_sort: "distinct (filter P (sort xs)) = distinct (filter P xs)"
proof -
  have "mset (filter P (sort xs)) = mset (filter P xs)" by simp
  then show ?thesis by (rule mset_eq_imp_distinct_iff)
qed

lemma unique_iff: "unique ls = distinct (filter (\<lambda>x. x \<noteq> 0) (limit_ids ls))"
proof (cases "length ls < 2")
  case True
  have "length (limit_ids ls) = length ls" by (simp add: limit_ids_def)
  with True have "length (filter (\<lambda>x. x \<noteq> 0) (limit_ids ls)) \<le> 1"
    using length_filter_le [of "\<lambda>x. x \<noteq> 0" "limit_ids ls"] by linarith
  then have "distinct (filter (\<lambda>x. x \<noteq> 0) (limit_ids ls))"
    by (cases "filter (\<lambda>x. x \<noteq> 0) (limit_ids ls)") auto
  with True show ?thesis by (simp add: unique_def)
next
  case False
  then show ?thesis
    by (simp add: unique_def no_identical_neighbors_sorted distinct_filter_sort)
qed

text \<open>
  C10. \<open>unique\<close> is true exactly when no non-zero node ID occurs twice in the ID list
  of the limits, where a nil slot stands for the zero ID: repeated zero IDs (two or more
  nil slots among them) are ignored. Repair rejects a request as duplicated exactly when
  the length matches the total count and a non-zero node ID is repeated, and it passes
  its configuration checks exactly when the length matches and no non-zero node ID is
  repeated.
\<close>

theorem unique_ignores_zero_id:
  "unique ls = distinct (filter (\<lambda>id. id \<noteq> 0) (limit_ids ls))
   \<and> (Repair_config_error P = Some (Error_New ''duplicated nodes are not allowed'')) =
       (int (length (repairLimits P)) = rsTotalCount P
        \<and> \<not> distinct (filter (\<lambda>id. id \<noteq> 0) (limit_ids (repairLimits P))))
   \<and> (Repair_config_error P = None) =
       (int (length (repairLimits P)) = rsTotalCount P
        \<and> distinct (filter (\<lambda>id. id \<noteq> 0) (limit_ids (repairLimits P))))"
  by (simp add: unique_iff Repair_config_error_def Error_New_def)

theorem unique_ignores_zero_id_witness:
  "unique [None, Some (demo_limit 2), None, Some (demo_limit 0), Some (demo_limit 0)]
   \<and> \<not> unique [Some (demo_limit 1), None, Some (demo_limit 1)]"
  using unique_ignores_zero_id [of "[None, Some (demo_limit 2), None, Some (demo_limit 0), Some (demo_limit 0)]"]
        unique_ignores_zero_id [of "[Some (demo_limit 1), None, Some (demo_limit 1)]"]
  by (simp add: limit_ids_def demo_limit_def demo_order_limit_def)

section \<open>Invariants of the download coordinator\<close>

lemma count_list_update:
  "i < length xs \<Longrightarrow>
     int (count_list (xs[i := y]) z) =
       int (count_list xs z) - (if xs ! i = z then 1 else 0) + (if y = z then 1 else 0)"
proof (induction xs arbitrary: i)
  case Nil
  then show ?case by simp
next
  case (Cons x xs)
  show ?case
  proof (cases i)
    case 0
    then show ?thesis by simp
  next
    case (Suc n)
    with Cons.prems have "n < length xs" by simp
    from Cons.IH [OF this] Suc show ?thesis by (auto split: if_splits)
  qed
qed

lemma inv_workers_step:
  assumes "Get_step P s ev = Some s'" and "inv_workers P s"
  shows "inv_workers P s'"
proof (cases ev)
  case CtxDone
  with assms show ?thesis by (auto simp: inv_workers_def)
next
  case Launch
  with assms show ?thesis
    by (auto simp: inv_workers_def nth_list_update split: if_splits option.splits)
next
  case (Enter i)
  with assms show ?thesis
    by (auto simp: inv_workers_def nth_list_update split: if_splits)
next
  case (Fetched i e1 e2)
  with assms show ?thesis
    by (auto simp: inv_workers_def recordFetch_def nth_list_update split: if_splits option.splits prod.splits)
qed

lemma inv_counts_step:
  assumes "Get_step P s ev = Some s'" and "inv_counts P s" and "inv_workers P s"
  shows "inv_counts P s'"
proof (cases ev)
  case CtxDone
  with assms show ?thesis by (auto simp: inv_counts_def running_def)
next
  case Launch
  with assms show ?thesis
    by (auto simp: inv_counts_def inv_workers_def running_def count_list_update split: if_splits option.splits)
next
  case (Enter i)
  with assms show ?thesis
    by (auto simp: inv_counts_def running_def count_list_update split: if_splits)
next
  case (Fetched i e1 e2)
  with assms show ?thesis
    by (auto simp: inv_counts_def recordFetch_def running_def count_list_update split: if_splits option.splits prod.splits)
qed


lemma inv_readers_step:
  assumes "Get_step P s ev = Some s'" and "inv_readers s" and "inv_workers P s"
  shows "inv_readers s'"
proof (cases ev)
  case CtxDone
  with assms show ?thesis by (auto simp: inv_readers_def)
next
  case Launch
  with assms(1) have len: "nextLimit s < length (workers s)"
    by (auto split: if_splits)
  with assms(3) have "workers s ! nextLimit s = Idle"
    by (simp add: inv_workers_def)
  with assms(2) have fresh: "pieceReaders s (nextLimit s) = None"
    by (auto simp: inv_readers_def)
  from assms(1,2) Launch fresh show ?thesis
    by (auto simp: inv_readers_def nth_list_update split: if_splits option.splits)
next
  case (Enter i)
  with assms(1,2) show ?thesis
    by (auto simp: inv_readers_def nth_list_update split: if_splits)
next
  case (Fetched i e1 e2)
  with assms have fetching: "workers s ! i = Fetching" and len: "i < length (workers s)"
    by (auto split: if_splits)
  with assms(2) have fresh: "i \<notin> dom (pieceReaders s)"
    by (auto simp: inv_readers_def)
  from assms(2) have "finite (dom (pieceReaders s))"
    by (simp add: inv_readers_def)
  with fresh have card: "card (insert i (dom (pieceReaders s))) = card (dom (pieceReaders s)) + 1"
    by simp
  from assms(1,2) Fetched card show ?thesis
    by (auto simp: inv_readers_def recordFetch_def nth_list_update
             split: if_splits option.splits prod.splits)
qed

lemma Get_inv_step: "Get_step P s ev = Some s' \<Longrightarrow> Get_inv P s \<Longrightarrow> Get_inv P s'"
  unfolding Get_inv_def
  using inv_workers_step inv_counts_step inv_readers_step by blast

lemma Get_inv_run: "Get_run P s evs = Some s' \<Longrightarrow> Get_inv P s \<Longrightarrow> Get_inv P s'"
proof (induction evs arbitrary: s)
  case Nil
  then show ?case by simp
next
  case (Cons ev evs)
  then show ?case by (auto split: option.splits dest: Get_inv_step)
qed

lemma count_list_replicate_other: "x \<noteq> y \<Longrightarrow> count_list (replicate n x) y = 0"
  by (induction n) auto

lemma Get_inv_init: "0 \<le> RequiredCount P \<Longrightarrow> Get_inv P (Get_init P)"
  by (simp add: Get_inv_def inv_workers_def inv_counts_def inv_readers_def Get_init_def
        running_def count_list_replicate_other)

lemma Get_exec_inv:
  assumes "Get_exec P evs = Some s"
  shows "Get_inv P s"
proof -
  from assms have k: "0 \<le> RequiredCount P" and run: "Get_run P (Get_init P) evs = Some s"
    by (auto simp: Get_exec_def split: if_splits)
  from Get_inv_run [OF run Get_inv_init [OF k]] show ?thesis .
qed

lemma fetches_Cons:
  "fetches P (ev # evs) = (case fetch_of P ev of None \<Rightarrow> [] | Some x \<Rightarrow> [x]) @ fetches P evs"
  by (simp add: fetches_def List.map_filter_simps split: option.splits)

lemma fetches_Nil: "fetches P [] = []"
  by (simp add: fetches_def List.map_filter_simps)

lemma fetches_single:
  "fetches P [ev] = (case fetch_of P ev of None \<Rightarrow> [] | Some x \<Rightarrow> [x])"
  by (simp add: fetches_Cons fetches_Nil)

lemma recordFetch_trace:
  "successfulPieces (recordFetch i l (r, e, urls) s) =
     successfulPieces s + (if e = None then 1 else 0)"
  "errlist (recordFetch i l (r, e, urls) s) =
     errlist s @ (case e of None \<Rightarrow> [] | Some x \<Rightarrow> [Errorf ''node id: %s, error: %w'' x])"
  "failedPieces (recordFetch i l (r, e, urls) s) =
     failedPieces s @ (case e of None \<Rightarrow> []
        | Some x \<Rightarrow> if Has ErrPieceHashVerifyFailed x
                    then [\<lparr>PieceNum = of_nat i, NodeId = StorageNodeId (Limit l)\<rparr>] else [])"
  "pieceReaders (recordFetch i l (r, e, urls) s) =
     (if e = None then (pieceReaders s)(i \<mapsto> r) else pieceReaders s)"
  "dialed (recordFetch i l (r, e, urls) s) = dialed s @ urls"
  by (cases e; simp add: recordFetch_def)+

lemma Get_step_Fetched:
  assumes "Get_step P s (Fetched i e1 e2) = Some s'"
  obtains l r e urls where "fetch_of P (Fetched i e1 e2) = Some (i, l, r, e)"
    and "fetchPiece P l e1 e2 = (r, e, urls)"
    and "s' = recordFetch i l (r, e, urls) s"
    and "limits P ! i = Some l" and "i < length (limits P)"
    and "i < length (workers s)" and "workers s ! i = Fetching"
proof -
  from assms have g: "i < length (workers s)" "i < length (limits P)" "workers s ! i = Fetching"
    by (auto split: if_splits)
  with assms obtain l where l: "limits P ! i = Some l"
    and s': "s' = recordFetch i l (fetchPiece P l e1 e2) s"
    by (auto split: option.splits)
  obtain r e urls where f: "fetchPiece P l e1 e2 = (r, e, urls)"
    by (cases "fetchPiece P l e1 e2") auto
  with l g have "fetch_of P (Fetched i e1 e2) = Some (i, l, r, e)"
    by (simp add: fetch_of_def)
  with that f s' l g show thesis by simp
qed

lemma Get_step_other:
  assumes "Get_step P s ev = Some s'" and "fetch_of P ev = None"
  shows "successfulPieces s' = successfulPieces s" and "errlist s' = errlist s"
    and "failedPieces s' = failedPieces s" and "pieceReaders s' = pieceReaders s"
proof -
  have "successfulPieces s' = successfulPieces s \<and> errlist s' = errlist s
        \<and> failedPieces s' = failedPieces s \<and> pieceReaders s' = pieceReaders s"
  proof (cases ev)
    case (Fetched i e1 e2)
    from assms(1) [unfolded Fetched] have "fetch_of P (Fetched i e1 e2) \<noteq> None"
      by (rule Get_step_Fetched) simp
    with assms(2) Fetched show ?thesis by simp
  next
    case CtxDone
    with assms(1) show ?thesis by auto
  next
    case Launch
    with assms(1) show ?thesis by (auto split: if_splits option.splits)
  next
    case (Enter i)
    with assms(1) show ?thesis by (auto split: if_splits)
  qed
  then show "successfulPieces s' = successfulPieces s" and "errlist s' = errlist s"
    and "failedPieces s' = failedPieces s" and "pieceReaders s' = pieceReaders s"
    by simp_all
qed

lemma Get_step_trace:
  assumes "Get_step P s ev = Some s'"
  shows "successfulPieces s' = successfulPieces s + int (successes P [ev])"
    and "errlist s' = errlist s @ sub_errors P [ev]"
    and "failedPieces s' = failedPieces s @ verification_failures P [ev]"
proof -
  have "successfulPieces s' = successfulPieces s + int (successes P [ev])
        \<and> errlist s' = errlist s @ sub_errors P [ev]
        \<and> failedPieces s' = failedPieces s @ verification_failures P [ev]"
  proof (cases "fetch_of P ev")
    case None
    with Get_step_other [OF assms] show ?thesis
      by (simp add: successes_def sub_errors_def verification_failures_def fetches_single)
  next
    case (Some x)
    then obtain i e1 e2 where ev: "ev = Fetched i e1 e2"
      by (cases ev) (auto simp: fetch_of_def)
    from assms [unfolded ev] show ?thesis
    proof (rule Get_step_Fetched)
      fix l r e urls
      assume "fetch_of P (Fetched i e1 e2) = Some (i, l, r, e)"
        and "s' = recordFetch i l (r, e, urls) s"
      then show ?thesis
        unfolding ev
        by (cases e)
           (simp_all add: successes_def sub_errors_def verification_failures_def
              fetches_single recordFetch_trace)
    qed
  qed
  then show "successfulPieces s' = successfulPieces s + int (successes P [ev])"
    and "errlist s' = errlist s @ sub_errors P [ev]"
    and "failedPieces s' = failedPieces s @ verification_failures P [ev]"
    by simp_all
qed

lemma trace_Cons:
  "successes P (ev # evs) = successes P [ev] + successes P evs"
  "sub_errors P (ev # evs) = sub_errors P [ev] @ sub_errors P evs"
  "verification_failures P (ev # evs) = verification_failures P [ev] @ verification_failures P evs"
  by (simp_all add: successes_def sub_errors_def verification_failures_def fetches_Cons fetches_Nil)

lemma Get_run_trace:
  "Get_run P s evs = Some s' \<Longrightarrow>
     successfulPieces s' = successfulPieces s + int (successes P evs)
     \<and> errlist s' = errlist s @ sub_errors P evs
     \<and> failedPieces s' = failedPieces s @ verification_failures P evs"
proof (induction evs arbitrary: s)
  case Nil
  then show ?case
    by (simp add: successes_def sub_errors_def verification_failures_def fetches_Nil)
next
  case (Cons ev evs)
  from Cons.prems obtain s1 where step: "Get_step P s ev = Some s1"
    and rest: "Get_run P s1 evs = Some s'"
    by (auto split: option.splits)
  from Cons.IH [OF rest] Get_step_trace [OF step] trace_Cons [of P ev evs] show ?case
    by simp
qed

section \<open>The download coordinator can always return\<close>

text \<open>From every state that a run reaches, some schedule leads to the return of Get:
  downloads in progress end, workers in their loop leave it or download, and the range
  loop starts the next worker once no worker is running (or gives up its slot when the
  context is done).\<close>

lemma Get_run_append:
  "Get_run P s (xs @ ys) =
     (case Get_run P s xs of None \<Rightarrow> None | Some s1 \<Rightarrow> Get_run P s1 ys)"
  by (induction xs arbitrary: s) (auto split: option.splits)

lemma count_list_pos_nth: "0 < count_list xs a \<Longrightarrow> \<exists>i<length xs. xs ! i = a"
  by (metis count_list_0_iff in_set_conv_nth less_numeral_extra(3))

lemma count_list_update_nat:
  assumes "i < length xs" and "xs ! i = a" and "a \<noteq> b"
  shows "count_list (xs[i := b]) a + 1 = count_list xs a"
    and "count_list (xs[i := b]) b = count_list xs b + 1"
    and "c \<noteq> a \<Longrightarrow> c \<noteq> b \<Longrightarrow> count_list (xs[i := b]) c = count_list xs c"
proof -
  from count_list_update [OF assms(1), of b a] assms(2,3)
  show "count_list (xs[i := b]) a + 1 = count_list xs a" by simp
  from count_list_update [OF assms(1), of b b] assms(2,3)
  show "count_list (xs[i := b]) b = count_list xs b + 1" by simp
  assume "c \<noteq> a" "c \<noteq> b"
  with count_list_update [OF assms(1), of b c] assms(2)
  show "count_list (xs[i := b]) c = count_list xs c" by simp
qed

lemma recordFetch_workers:
  "workers (recordFetch i l res s) = (workers s)[i := Done]"
  "nextLimit (recordFetch i l res s) = nextLimit s"
  by (auto simp: recordFetch_def split: prod.splits option.splits)

lemma Fetched_progress:
  assumes "Get_inv P s" and "i < length (workers s)" and "workers s ! i = Fetching"
  shows "\<exists>s'. Get_step P s (Fetched i env1 env2) = Some s' \<and> todo P s' < todo P s"
proof -
  from assms have len: "i < length (limits P)" and "limits P ! i \<noteq> None"
    by (auto simp: Get_inv_def inv_workers_def)
  then obtain l where l: "limits P ! i = Some l" by auto
  let ?s' = "recordFetch i l (fetchPiece P l env1 env2) s"
  from assms(2,3) len l have step: "Get_step P s (Fetched i env1 env2) = Some ?s'" by simp
  from count_list_update_nat [OF assms(2,3), of Done]
  have "count_list ((workers s)[i := Done]) Fetching + 1 = count_list (workers s) Fetching"
    and "count_list ((workers s)[i := Done]) Contending = count_list (workers s) Contending"
    by simp_all
  then have "todo P ?s' < todo P s"
    by (simp add: todo_def recordFetch_workers)
  with step show ?thesis by blast
qed

lemma Enter_progress:
  assumes "Get_inv P s" and "count_list (workers s) Fetching = 0"
    and "i < length (workers s)" and "workers s ! i = Contending"
  shows "\<exists>s'. Get_step P s (Enter i) = Some s' \<and> todo P s' < todo P s"
proof -
  from assms(1,2) have ip: "inProgress s = 0"
    by (simp add: Get_inv_def inv_counts_def)
  from count_list_update_nat [OF assms(3,4), of Done]
  have d: "count_list ((workers s)[i := Done]) Contending + 1 = count_list (workers s) Contending"
    "count_list ((workers s)[i := Done]) Fetching = count_list (workers s) Fetching"
    by simp_all
  from count_list_update_nat [OF assms(3,4), of Fetching]
  have f: "count_list ((workers s)[i := Fetching]) Contending + 1 = count_list (workers s) Contending"
    "count_list ((workers s)[i := Fetching]) Fetching = count_list (workers s) Fetching + 1"
    by simp_all
  from assms(3,4) ip d f show ?thesis
    by (auto simp: todo_def)
qed

lemma Launch_progress:
  assumes "Get_inv P s" and "running s = 0" and "nextLimit s < length (limits P)"
  shows "\<exists>evs s'. Get_run P s evs = Some s' \<and> todo P s' < todo P s"
proof -
  from assms(1) have len: "length (workers s) = length (limits P)"
    by (simp add: Get_inv_def inv_workers_def)
  with assms(1,3) have idle: "workers s ! nextLimit s = Idle"
    by (simp add: Get_inv_def inv_workers_def)
  from assms(3) len have n: "nextLimit s < length (workers s)" by simp
  from count_list_update_nat(3) [OF n idle, of Contending Contending]
       count_list_update_nat(3) [OF n idle, of Skipped Contending]
       count_list_update_nat(3) [OF n idle, of Contending Fetching]
       count_list_update_nat(3) [OF n idle, of Skipped Fetching]
       count_list_update_nat(2) [OF n idle, of Contending]
  have c: "count_list ((workers s)[nextLimit s := Skipped]) Contending = count_list (workers s) Contending"
    "count_list ((workers s)[nextLimit s := Skipped]) Fetching = count_list (workers s) Fetching"
    "count_list ((workers s)[nextLimit s := Contending]) Fetching = count_list (workers s) Fetching"
    "count_list ((workers s)[nextLimit s := Contending]) Contending = count_list (workers s) Contending + 1"
    by simp_all
  show ?thesis
  proof (cases "limits P ! nextLimit s")
    case None
    with assms(3) n have "Get_run P s [Launch] = Some (s\<lparr>nextLimit := nextLimit s + 1\<rparr>)"
      by simp
    moreover from assms(3) have "todo P (s\<lparr>nextLimit := nextLimit s + 1\<rparr>) < todo P s"
      by (simp add: todo_def)
    ultimately show ?thesis by blast
  next
    case (Some l)
    show ?thesis
    proof (cases "ctxDone s \<or> 0 < RequiredCount P")
      case True
      with Some assms(2,3) n c have "\<exists>s'. Get_run P s [Launch] = Some s' \<and> todo P s' < todo P s"
        by (auto simp: todo_def)
      then show ?thesis by blast
    next
      case False
      with Some assms(3) n c
      have "\<exists>s'. Get_run P s [CtxDone, Launch] = Some s' \<and> todo P s' < todo P s"
        by (auto simp: todo_def)
      then show ?thesis by blast
    qed
  qed
qed

lemma Get_can_finish:
  "Get_inv P s \<Longrightarrow> \<exists>evs s'. Get_run P s evs = Some s' \<and> Get_finished P s'"
proof (induction "todo P s" arbitrary: s rule: less_induct)
  case less
  have next_step: "Get_finished P s \<or> (\<exists>evs s1. Get_run P s evs = Some s1 \<and> todo P s1 < todo P s)"
  proof (cases "0 < count_list (workers s) Fetching")
    case True
    from count_list_pos_nth [OF this] obtain i where "i < length (workers s)"
      "workers s ! i = Fetching" by blast
    from Fetched_progress [OF less.prems this, of offline_node offline_node]
    obtain s1 where "Get_step P s (Fetched i offline_node offline_node) = Some s1"
      "todo P s1 < todo P s" by blast
    then have "Get_run P s [Fetched i offline_node offline_node] = Some s1 \<and> todo P s1 < todo P s"
      by simp
    then show ?thesis by blast
  next
    case nofetch: False
    show ?thesis
    proof (cases "0 < count_list (workers s) Contending")
      case True
      from count_list_pos_nth [OF this] obtain i where i: "i < length (workers s)"
        "workers s ! i = Contending" by blast
      from nofetch have "count_list (workers s) Fetching = 0" by simp
      from Enter_progress [OF less.prems this i]
      obtain s1 where "Get_step P s (Enter i) = Some s1" "todo P s1 < todo P s" by blast
      then have "Get_run P s [Enter i] = Some s1 \<and> todo P s1 < todo P s" by simp
      then show ?thesis by blast
    next
      case False
      with nofetch have run0: "running s = 0" by (simp add: running_def)
      show ?thesis
      proof (cases "nextLimit s < length (limits P)")
        case True
        from Launch_progress [OF less.prems run0 True] show ?thesis by blast
      next
        case False
        with less.prems have "nextLimit s = length (limits P)"
          by (simp add: Get_inv_def inv_workers_def)
        with run0 show ?thesis by (simp add: Get_finished_def)
      qed
    qed
  qed
  then show ?case
  proof
    assume "Get_finished P s"
    then have "Get_run P s [] = Some s \<and> Get_finished P s" by simp
    then show ?thesis by blast
  next
    assume "\<exists>evs s1. Get_run P s evs = Some s1 \<and> todo P s1 < todo P s"
    then obtain evs s1 where run: "Get_run P s evs = Some s1" and lt: "todo P s1 < todo P s"
      by blast
    from Get_inv_run [OF run less.prems] have "Get_inv P s1" .
    from less.hyps [OF lt this] obtain evs' s' where "Get_run P s1 evs' = Some s'"
      "Get_finished P s'" by blast
    with run have "Get_run P s (evs @ evs') = Some s' \<and> Get_finished P s'"
      by (simp add: Get_run_append)
    then show ?thesis by blast
  qed
qed

lemma Get_can_return:
  assumes "Get_exec P evs = Some s"
  shows "\<exists>evs' r. Get P (evs @ evs') = Some r"
proof -
  from assms have cfg: "Get_config_error P = None" and k: "\<not> RequiredCount P < 0"
    and run: "Get_run P (Get_init P) evs = Some s"
    by (auto simp: Get_exec_def split: if_splits)
  from Get_can_finish [OF Get_exec_inv [OF assms]] obtain evs' s' where
    "Get_run P s evs' = Some s'" and fin: "Get_finished P s'" by blast
  with run have "Get_run P (Get_init P) (evs @ evs') = Some s'"
    by (simp add: Get_run_append)
  with cfg k fin have "Get P (evs @ evs') = Some (Get_return P s')"
    by (simp add: Get_def Get_exec_def)
  then show ?thesis by blast
qed

section \<open>Properties of the download coordinator\<close>

lemma Enter_claims:
  assumes "Get_step P s (Enter i) = Some s'" and "workers s' ! i = Fetching"
  shows "successfulPieces s + inProgress s < RequiredCount P"
proof -
  from assms(1) have g: "i < length (workers s)" "workers s ! i = Contending"
    by (auto split: if_splits)
  with assms show ?thesis
    by (auto split: if_splits)
qed

text \<open>
  C1. In every state that a run of Get reaches, \<open>successfulPieces + inProgress\<close> is at
  most the required count \<open>k\<close>; \<open>inProgress\<close> is the number of workers that are
  downloading, so at most \<open>k\<close> downloads are in flight, and at most \<open>k\<close> workers have
  been started by the limiter and not returned; a worker that leaves the head of
  its loop to download found \<open>successfulPieces + inProgress < k\<close> under the lock; and when
  Get returns without error, the stream is built from the piece readers of the final
  state, which has exactly \<open>k\<close> entries.
\<close>

theorem Get_admission_invariant:
  assumes "Get_exec P evs = Some s"
  shows "successfulPieces s + inProgress s \<le> RequiredCount P
    \<and> inProgress s = int (count_list (workers s) Fetching)
    \<and> int (count_list (workers s) Fetching) \<le> RequiredCount P
    \<and> running s \<le> RequiredCount P
    \<and> (\<forall>i s'. Get_step P s (Enter i) = Some s' \<and> workers s' ! i = Fetching
          \<longrightarrow> successfulPieces s + inProgress s < RequiredCount P)
    \<and> (\<forall>r. Get P evs = Some r \<and> get_err r = None
          \<longrightarrow> stream r = Some (DecodeReaders2 (pieceReaders s) (pieceSize P * RequiredCount P))
              \<and> int (card (dom (pieceReaders s))) = RequiredCount P)"
proof -
  from Get_exec_inv [OF assms] have c: "inv_counts P s" and r: "inv_readers s"
    by (simp_all add: Get_inv_def)
  from c have sum: "successfulPieces s + inProgress s \<le> RequiredCount P"
    and ip: "inProgress s = int (count_list (workers s) Fetching)"
    and lim: "running s \<le> RequiredCount P"
    by (simp_all add: inv_counts_def)
  from r have sp: "successfulPieces s = int (card (dom (pieceReaders s)))"
    by (simp add: inv_readers_def)
  from sum ip sp have flight: "int (count_list (workers s) Fetching) \<le> RequiredCount P"
    by linarith
  have claim: "\<forall>i s'. Get_step P s (Enter i) = Some s' \<and> workers s' ! i = Fetching
          \<longrightarrow> successfulPieces s + inProgress s < RequiredCount P"
    using Enter_claims by blast
  have ret: "\<forall>r. Get P evs = Some r \<and> get_err r = None
          \<longrightarrow> stream r = Some (DecodeReaders2 (pieceReaders s) (pieceSize P * RequiredCount P))
              \<and> int (card (dom (pieceReaders s))) = RequiredCount P"
  proof (intro allI impI, elim conjE)
    fix r assume get: "Get P evs = Some r" and ok: "get_err r = None"
    from assms have cfg: "Get_config_error P = None"
      by (auto simp: Get_exec_def split: if_splits)
    with get assms have fin: "Get_finished P s" and ret: "r = Get_return P s"
      by (auto simp: Get_def split: if_splits)
    from ret ok have enough: "RequiredCount P \<le> successfulPieces s"
      and st: "stream r = Some (DecodeReaders2 (pieceReaders s) (pieceSize P * RequiredCount P))"
      by (auto simp: Get_return_def split: if_splits option.splits)
    from enough sum ip sp have "int (card (dom (pieceReaders s))) = RequiredCount P"
      by linarith
    with st show "stream r = Some (DecodeReaders2 (pieceReaders s) (pieceSize P * RequiredCount P))
              \<and> int (card (dom (pieceReaders s))) = RequiredCount P" by simp
  qed
  from sum ip flight lim claim ret show ?thesis by blast
qed

lemma Get_return_failed: "failed (Get_return P s) = failedPieces s"
  by (simp add: Get_return_def split: option.splits)

lemma sint_int32: "0 \<le> k \<Longrightarrow> k < 2 ^ 31 \<Longrightarrow> sint (word_of_int k :: int32) = k"
  by (simp add: sint_sbintrunc' signed_take_bit_int_eq_self)

lemma sint_int32_nat: "n < 2 ^ 31 \<Longrightarrow> sint (of_nat n :: int32) = int n"
  using sint_int32 [of "int n"] by simp

text \<open>
  C2. From every state that a call of Get reaches after its configuration checks, some
  schedule leads to its return. When it returns after fewer than \<open>k\<close> downloads succeeded, the stream is nil
  and the error is the irreparable error with \<open>piecesAvailable\<close> the number of
  successful downloads, \<open>piecesRequired\<close> the required count (both converted to int32,
  which keeps their value below \<open>2^31\<close>) and \<open>errlist\<close> the errors of the failed
  downloads in the order in which they were recorded; the failed pieces collected so far
  are returned with it.
\<close>

theorem Get_insufficient_pieces:
  assumes "Get_exec P evs = Some s"
  shows "(\<exists>evs' r. Get P (evs @ evs') = Some r)
    \<and> (\<forall>r. Get P evs = Some r \<and> int (successes P evs) < RequiredCount P \<longrightarrow>
          stream r = None
          \<and> get_err r = Some (IrreparableError (of_nat (successes P evs))
                              (word_of_int (RequiredCount P)) (sub_errors P evs))
          \<and> failed r = verification_failures P evs
          \<and> (RequiredCount P < 2 ^ 31 \<longrightarrow>
               sint (of_nat (successes P evs) :: int32) = int (successes P evs)
               \<and> sint (word_of_int (RequiredCount P) :: int32) = RequiredCount P))"
proof -
  from assms have cfg: "Get_config_error P = None" and k: "0 \<le> RequiredCount P"
    and run: "Get_run P (Get_init P) evs = Some s"
    by (auto simp: Get_exec_def split: if_splits)
  from Get_run_trace [OF run] have sp: "successfulPieces s = int (successes P evs)"
    and el: "errlist s = sub_errors P evs"
    and fp: "failedPieces s = verification_failures P evs"
    by (simp_all add: Get_init_def)
  have ret: "\<forall>r. Get P evs = Some r \<and> int (successes P evs) < RequiredCount P \<longrightarrow>
          stream r = None
          \<and> get_err r = Some (IrreparableError (of_nat (successes P evs))
                              (word_of_int (RequiredCount P)) (sub_errors P evs))
          \<and> failed r = verification_failures P evs
          \<and> (RequiredCount P < 2 ^ 31 \<longrightarrow>
               sint (of_nat (successes P evs) :: int32) = int (successes P evs)
               \<and> sint (word_of_int (RequiredCount P) :: int32) = RequiredCount P)"
  proof (intro allI impI, elim conjE)
    fix r assume get: "Get P evs = Some r" and short: "int (successes P evs) < RequiredCount P"
    from get cfg assms have r: "r = Get_return P s"
      by (auto simp: Get_def split: if_splits)
    from sp short have "successfulPieces s < RequiredCount P" by simp
    with r sp el fp have main: "stream r = None
      \<and> get_err r = Some (IrreparableError (of_nat (successes P evs))
                          (word_of_int (RequiredCount P)) (sub_errors P evs))
      \<and> failed r = verification_failures P evs"
      by (simp add: Get_return_def)
    have "RequiredCount P < 2 ^ 31 \<longrightarrow>
           sint (of_nat (successes P evs) :: int32) = int (successes P evs)
           \<and> sint (word_of_int (RequiredCount P) :: int32) = RequiredCount P"
    proof
      assume b: "RequiredCount P < 2 ^ 31"
      with short have "int (successes P evs) < 2 ^ 31" by linarith
      then have "successes P evs < 2 ^ 31" by (simp add: of_nat_less_numeral_power_cancel_iff)
      with b k show "sint (of_nat (successes P evs) :: int32) = int (successes P evs)
           \<and> sint (word_of_int (RequiredCount P) :: int32) = RequiredCount P"
        by (simp add: sint_int32 sint_int32_nat)
    qed
    with main show "stream r = None
          \<and> get_err r = Some (IrreparableError (of_nat (successes P evs))
                              (word_of_int (RequiredCount P)) (sub_errors P evs))
          \<and> failed r = verification_failures P evs
          \<and> (RequiredCount P < 2 ^ 31 \<longrightarrow>
               sint (of_nat (successes P evs) :: int32) = int (successes P evs)
               \<and> sint (word_of_int (RequiredCount P) :: int32) = RequiredCount P)"
      by blast
  qed
  from Get_can_return [OF assms] ret show ?thesis by blast
qed

lemma errs_Combine_Some:
  "errs_Combine (Some a) b = Some (case b of None \<Rightarrow> a | Some b' \<Rightarrow> Combined [a, b'])"
  by (cases b) simp_all

text \<open>A class is found in the result of the two deferred \<open>errs.Combine\<close> calls only
  when both closes returned nil, so that the result is the error itself.\<close>

lemma Has_Combine_closes:
  assumes "errs_Combine (errs_Combine (Some a) b1) b2 = Some e"
  shows "Has c e = (b1 = None \<and> b2 = None \<and> Has c a)"
  using assms by (cases b1; cases b2) auto

lemma download_after_checks:
  assumes "proofs_sent ec sz env = Some (bs, h, ol)"
  shows "downloadAndVerifyPiece sg ec sz env =
     (let (r, e) =
        (case verifyOrderLimitSignature sg (satelliteSignee ec) ol of
           Some x \<Rightarrow> (None, Some x)
         | None \<Rightarrow>
            (case verifyPieceHash sg (Some ol) (Some h) (NewHash sg bs) of
               Some x \<Rightarrow> (None, Some (Class ErrPieceHashVerifyFailed x))
             | None \<Rightarrow> (Some bs, None)))
      in (r, errs_Combine (errs_Combine e (downloader_close env)) (ps_close env)))"
  using assms
  by (auto simp: proofs_sent_def downloadAndVerifyPiece_def verifyDownloaded_def
           split: if_splits sum.splits option.splits)

lemma verifyPieceHash_error:
  "verifyPieceHash sg ol h x = Some e \<Longrightarrow> \<exists>m. e = Error_New m"
  by (auto simp: verifyPieceHash_def split: option.splits if_splits)

lemma pieceHashCheckFails_error:
  assumes "pieceHashCheckFails sg ec sz env"
  shows "\<exists>m e. downloadAndVerifyPiece sg ec sz env = (None, Some e)
            \<and> errs_Combine (errs_Combine (Some (Class ErrPieceHashVerifyFailed (Error_New m)))
                   (downloader_close env)) (ps_close env) = Some e
            \<and> Has ErrPieceHashVerifyFailed e = closes_cleanly env
            \<and> \<not> Has PiecestoreError e"
proof -
  from assms obtain bs h ol x where sent: "proofs_sent ec sz env = Some (bs, h, ol)"
    and ol: "verifyOrderLimitSignature sg (satelliteSignee ec) ol = None"
    and ph: "verifyPieceHash sg (Some ol) (Some h) (NewHash sg bs) = Some x"
    by (auto simp: pieceHashCheckFails_def split: option.splits)
  from verifyPieceHash_error [OF ph] obtain m where x: "x = Error_New m" by blast
  obtain e1 where e1: "errs_Combine (Some (Class ErrPieceHashVerifyFailed x))
                         (downloader_close env) = Some e1"
    by (simp add: errs_Combine_Some)
  obtain e2 where e2: "errs_Combine (Some e1) (ps_close env) = Some e2"
    by (simp add: errs_Combine_Some)
  from e1 e2 have c: "errs_Combine (errs_Combine (Some (Class ErrPieceHashVerifyFailed x))
                        (downloader_close env)) (ps_close env) = Some e2" by simp
  from Has_Combine_closes [OF c, of ErrPieceHashVerifyFailed]
  have h1: "Has ErrPieceHashVerifyFailed e2 = closes_cleanly env"
    by (simp add: closes_cleanly_def)
  from Has_Combine_closes [OF c, of PiecestoreError] x
  have h2: "\<not> Has PiecestoreError e2"
    by (simp add: Error_New_def)
  from download_after_checks [OF sent, of sg] ol ph e1 e2
  have "downloadAndVerifyPiece sg ec sz env = (None, Some e2)" by simp
  with c h1 h2 x show ?thesis by blast
qed

lemma orderLimitCheckFails_error:
  assumes "orderLimitCheckFails sg ec sz env"
  shows "\<exists>e. downloadAndVerifyPiece sg ec sz env = (None, Some e)
            \<and> errs_Combine (errs_Combine (Some (Error_New ''invalid order limit signature: %v''))
                   (downloader_close env)) (ps_close env) = Some e
            \<and> \<not> Has ErrPieceHashVerifyFailed e
            \<and> \<not> Has PiecestoreError e"
proof -
  from assms obtain bs h ol x where sent: "proofs_sent ec sz env = Some (bs, h, ol)"
    and ol: "verifyOrderLimitSignature sg (satelliteSignee ec) ol = Some x"
    by (auto simp: orderLimitCheckFails_def split: option.splits)
  from ol have x: "x = Error_New ''invalid order limit signature: %v''"
    by (auto simp: verifyOrderLimitSignature_def split: option.splits)
  obtain e1 where e1: "errs_Combine (Some x) (downloader_close env) = Some e1"
    by (simp add: errs_Combine_Some)
  obtain e2 where e2: "errs_Combine (Some e1) (ps_close env) = Some e2"
    by (simp add: errs_Combine_Some)
  from e1 e2 have c: "errs_Combine (errs_Combine (Some x) (downloader_close env))
                        (ps_close env) = Some e2" by simp
  from Has_Combine_closes [OF c, of ErrPieceHashVerifyFailed] x
  have h1: "\<not> Has ErrPieceHashVerifyFailed e2"
    by (simp add: Error_New_def)
  from Has_Combine_closes [OF c, of PiecestoreError] x
  have h2: "\<not> Has PiecestoreError e2"
    by (simp add: Error_New_def)
  from download_after_checks [OF sent, of sg] ol e1 e2
  have "downloadAndVerifyPiece sg ec sz env = (None, Some e2)" by simp
  with c h1 h2 x show ?thesis by blast
qed

lemma fetchPiece_kept:
  "fetchPiece P l env1 env2 = (r, e, urls) \<Longrightarrow>
     downloadAndVerifyPiece (crypto P) (repairer P) (pieceSize P) (keptAttempt P l env1 env2) = (r, e)"
  by (auto simp: fetchPiece_def keptAttempt_def retried_def Let_def
           split: prod.splits if_splits option.splits)

text \<open>An attempt that returns an error without the class of the piece store client is
  not retried: it is the attempt that the worker keeps.\<close>

lemma failed_attempt_kept:
  assumes "env \<in> set (attempts P l env1 env2)"
    and "downloadAndVerifyPiece (crypto P) (repairer P) (pieceSize P) env = (r, Some e)"
    and "\<not> Has PiecestoreError e"
  shows "keptAttempt P l env1 env2 = env"
proof (cases "retried P l env1")
  case True
  with assms(2,3) have "env \<noteq> env1" by (auto simp: retried_def)
  with True assms(1) show ?thesis by (simp add: attempts_def keptAttempt_def)
next
  case False
  with assms(1) show ?thesis by (simp add: attempts_def keptAttempt_def)
qed

lemma fetch_of_mem:
  "ev \<in> set evs \<Longrightarrow> fetch_of P ev = Some x \<Longrightarrow> x \<in> set (fetches P evs)"
proof (induction evs)
  case Nil
  then show ?case by simp
next
  case (Cons a evs)
  show ?case
  proof (cases "ev = a")
    case True
    with Cons.prems(2) show ?thesis by (simp add: fetches_Cons)
  next
    case False
    with Cons.prems have "ev \<in> set evs" by simp
    from Cons.IH [OF this Cons.prems(2)] show ?thesis by (simp add: fetches_Cons)
  qed
qed

lemma fetches_mem:
  assumes "Fetched i env1 env2 \<in> set evs" and "i < length (limits P)"
    and "limits P ! i = Some l" and "fetchPiece P l env1 env2 = (r, e, urls)"
  shows "(i, l, r, e) \<in> set (fetches P evs)"
proof -
  from assms(2-4) have "fetch_of P (Fetched i env1 env2) = Some (i, l, r, e)"
    by (simp add: fetch_of_def)
  with assms(1) show ?thesis by (rule fetch_of_mem)
qed

lemma kept_error_recorded:
  assumes "Fetched i env1 env2 \<in> set evs" and "i < length (limits P)"
    and "limits P ! i = Some l"
    and "downloadAndVerifyPiece (crypto P) (repairer P) (pieceSize P)
           (keptAttempt P l env1 env2) = (r, Some e)"
  shows "(i, l, r, Some e) \<in> set (fetches P evs)"
proof -
  obtain r' e' urls where f: "fetchPiece P l env1 env2 = (r', e', urls)"
    by (cases "fetchPiece P l env1 env2") auto
  from fetchPiece_kept [OF f] assms(4) have "r' = r" "e' = Some e" by simp_all
  with fetches_mem [OF assms(1-3) f] show ?thesis by simp
qed

text \<open>
  What the code does with a download attempt for slot \<open>i\<close> that fails the piece-hash
  check: the attempt is not retried, and the step that records it appends the record
  with piece number \<open>i\<close> and the node ID of the limit to the failed pieces exactly when
  the downloader and the client closed without an error. With a clean close the record
  is in the failed pieces of every later state, and Get returns the failed pieces
  whether it returns an error or not.
\<close>

lemma hash_failure_recorded_iff_clean_close:
  assumes "Get_exec P evs = Some s" and "Fetched i env1 env2 \<in> set evs"
    and "i < length (limits P)" and "limits P ! i = Some l"
    and "env \<in> set (attempts P l env1 env2)"
    and "pieceHashCheckFails (crypto P) (repairer P) (pieceSize P) env"
  shows "keptAttempt P l env1 env2 = env
    \<and> (\<forall>s0 s'. Get_step P s0 (Fetched i env1 env2) = Some s' \<longrightarrow>
          failedPieces s' =
            (if closes_cleanly env
             then failedPieces s0 @ [\<lparr>PieceNum = of_nat i, NodeId = StorageNodeId (Limit l)\<rparr>]
             else failedPieces s0))
    \<and> (closes_cleanly env \<longrightarrow>
          \<lparr>PieceNum = of_nat i, NodeId = StorageNodeId (Limit l)\<rparr> \<in> set (failedPieces s))
    \<and> (\<forall>r. Get P evs = Some r \<longrightarrow> failed r = failedPieces s)"
proof -
  from assms(1) have cfg: "Get_config_error P = None"
    and run: "Get_run P (Get_init P) evs = Some s"
    by (auto simp: Get_exec_def split: if_splits)
  from Get_run_trace [OF run] have failed: "failedPieces s = verification_failures P evs"
    by (simp add: Get_init_def)
  from pieceHashCheckFails_error [OF assms(6)] obtain e where
    d: "downloadAndVerifyPiece (crypto P) (repairer P) (pieceSize P) env = (None, Some e)"
    and has: "Has ErrPieceHashVerifyFailed e = closes_cleanly env"
    and np: "\<not> Has PiecestoreError e" by blast
  from failed_attempt_kept [OF assms(5) d np] have kept: "keptAttempt P l env1 env2 = env" .
  with d have d': "downloadAndVerifyPiece (crypto P) (repairer P) (pieceSize P)
                     (keptAttempt P l env1 env2) = (None, Some e)" by simp
  have a: "\<forall>s0 s'. Get_step P s0 (Fetched i env1 env2) = Some s' \<longrightarrow>
          failedPieces s' =
            (if closes_cleanly env
             then failedPieces s0 @ [\<lparr>PieceNum = of_nat i, NodeId = StorageNodeId (Limit l)\<rparr>]
             else failedPieces s0)"
  proof (intro allI impI)
    fix s0 s' assume step: "Get_step P s0 (Fetched i env1 env2) = Some s'"
    from step show "failedPieces s' =
            (if closes_cleanly env
             then failedPieces s0 @ [\<lparr>PieceNum = of_nat i, NodeId = StorageNodeId (Limit l)\<rparr>]
             else failedPieces s0)"
    proof (rule Get_step_Fetched)
      fix l' r' e' urls
      assume f: "fetchPiece P l' env1 env2 = (r', e', urls)"
        and s': "s' = recordFetch i l' (r', e', urls) s0"
        and l': "limits P ! i = Some l'"
      from assms(4) l' have ll: "l' = l" by simp
      with fetchPiece_kept [OF f] d' have "e' = Some e" by simp
      with s' has ll show ?thesis by (simp add: recordFetch_trace)
    qed
  qed
  from kept_error_recorded [OF assms(2-4) d']
  have "(i, l, None, Some e) \<in> set (fetches P evs)" .
  with has have "closes_cleanly env \<longrightarrow> \<lparr>PieceNum = of_nat i, NodeId = StorageNodeId (Limit l)\<rparr>
      \<in> set (verification_failures P evs)"
    unfolding verification_failures_def by force
  with failed have b: "closes_cleanly env \<longrightarrow>
      \<lparr>PieceNum = of_nat i, NodeId = StorageNodeId (Limit l)\<rparr> \<in> set (failedPieces s)" by simp
  have c: "\<forall>r. Get P evs = Some r \<longrightarrow> failed r = failedPieces s"
    using cfg assms(1) by (auto simp: Get_def Get_return_failed split: if_splits)
  from kept a b c show ?thesis by blast
qed

lemma Done_stable_step:
  assumes "Get_step P s ev = Some s'" and "inv_workers P s"
    and "i < length (workers s)" and "workers s ! i = Done"
  shows "workers s' ! i = Done \<and> pieceReaders s' i = pieceReaders s i
         \<and> i < length (workers s')"
proof (cases ev)
  case CtxDone
  with assms show ?thesis by auto
next
  case Launch
  with assms(1) have len: "nextLimit s < length (workers s)"
    by (auto split: if_splits)
  with assms(2) have "workers s ! nextLimit s = Idle"
    by (simp add: inv_workers_def)
  with assms(4) have "nextLimit s \<noteq> i" by auto
  with assms Launch show ?thesis
    by (auto split: if_splits option.splits)
next
  case (Enter j)
  with assms(1,4) have "j \<noteq> i" by (auto split: if_splits)
  with assms Enter show ?thesis by (auto split: if_splits)
next
  case (Fetched j e1 e2)
  with assms(1,4) have "j \<noteq> i" by (auto split: if_splits)
  with assms Fetched show ?thesis
    by (auto simp: recordFetch_def split: if_splits option.splits prod.splits)
qed

lemma Done_stable_run:
  "Get_run P s evs = Some s' \<Longrightarrow> inv_workers P s \<Longrightarrow> i < length (workers s) \<Longrightarrow>
     workers s ! i = Done \<Longrightarrow> pieceReaders s' i = pieceReaders s i"
proof (induction evs arbitrary: s)
  case Nil
  then show ?case by simp
next
  case (Cons ev evs)
  from Cons.prems(1) obtain s1 where step: "Get_step P s ev = Some s1"
    and rest: "Get_run P s1 evs = Some s'"
    by (auto split: option.splits)
  from Done_stable_step [OF step Cons.prems(2-4)]
  have d: "workers s1 ! i = Done" "pieceReaders s1 i = pieceReaders s i" "i < length (workers s1)"
    by simp_all
  from inv_workers_step [OF step Cons.prems(2)] have "inv_workers P s1" .
  from Cons.IH [OF rest this d(3) d(1)] d(2) show ?case by simp
qed

lemma failed_fetch_never_read:
  assumes run: "Get_run P (Get_init P) evs = Some s" and k: "0 \<le> RequiredCount P"
    and ev: "Fetched i env1 env2 \<in> set evs" and l: "limits P ! i = Some l"
    and d: "downloadAndVerifyPiece (crypto P) (repairer P) (pieceSize P)
             (keptAttempt P l env1 env2) = (rd, Some e)"
  shows "pieceReaders s i = None"
proof -
  from ev obtain xs ys where evs: "evs = xs @ Fetched i env1 env2 # ys"
    by (auto dest: split_list)
  with run obtain s1 s2 where pre: "Get_run P (Get_init P) xs = Some s1"
    and step: "Get_step P s1 (Fetched i env1 env2) = Some s2"
    and post: "Get_run P s2 ys = Some s"
    by (auto simp: Get_run_append split: option.splits)
  from Get_inv_run [OF pre Get_inv_init [OF k]] have inv1: "Get_inv P s1" .
  from Get_inv_step [OF step inv1] have inv2: "inv_workers P s2"
    by (simp add: Get_inv_def)
  from step show ?thesis
  proof (rule Get_step_Fetched)
    fix l' r' e' urls
    assume f: "fetchPiece P l' env1 env2 = (r', e', urls)"
      and s2: "s2 = recordFetch i l' (r', e', urls) s1"
      and l': "limits P ! i = Some l'"
      and len: "i < length (workers s1)" and w: "workers s1 ! i = Fetching"
    from l l' have "l' = l" by simp
    with fetchPiece_kept [OF f] d have e': "e' = Some e" by simp
    from inv1 w len have "pieceReaders s1 i = None"
      by (auto simp: Get_inv_def inv_readers_def)
    with s2 e' have none2: "pieceReaders s2 i = None"
      by (simp add: recordFetch_trace)
    from s2 e' len have done2: "workers s2 ! i = Done" "i < length (workers s2)"
      by (simp_all add: recordFetch_def)
    from Done_stable_run [OF post inv2 done2(2) done2(1)] none2 show ?thesis by simp
  qed
qed

text \<open>
  C4, as the code has it. A download attempt for slot \<open>i\<close> in which the order limit that
  the node echoes fails the check of the satellite signature is not retried and is
  rejected: slot \<open>i\<close> is not among the piece readers of any later state nor of a returned
  stream, and the step that records the download leaves \<open>successfulPieces\<close> and the
  piece readers unchanged. Its error, the error of the check combined with the errors
  of closing the downloader and the client, is added to the error list. That error
  does not have the class \<open>ErrPieceHashVerifyFailed\<close>, and the step leaves the failed
  pieces unchanged: the node is not reported as failed.
\<close>

theorem Get_rejects_unsigned_order_limit:
  assumes "Get_exec P evs = Some s" and "Fetched i env1 env2 \<in> set evs"
    and "i < length (limits P)" and "limits P ! i = Some l"
    and "env \<in> set (attempts P l env1 env2)"
    and "orderLimitCheckFails (crypto P) (repairer P) (pieceSize P) env"
  shows "keptAttempt P l env1 env2 = env
    \<and> pieceReaders s i = None
    \<and> (\<forall>r m sz. Get P evs = Some r \<and> stream r = Some (DecodeReaders2 m sz) \<longrightarrow> m i = None)
    \<and> (\<exists>e. errs_Combine (errs_Combine (Some (Error_New ''invalid order limit signature: %v''))
                (downloader_close env)) (ps_close env) = Some e
           \<and> Errorf ''node id: %s, error: %w'' e \<in> set (errlist s)
           \<and> \<not> Has ErrPieceHashVerifyFailed e
           \<and> (\<forall>s0 s'. Get_step P s0 (Fetched i env1 env2) = Some s' \<longrightarrow>
                 successfulPieces s' = successfulPieces s0
                 \<and> pieceReaders s' = pieceReaders s0
                 \<and> errlist s' = errlist s0 @ [Errorf ''node id: %s, error: %w'' e]
                 \<and> failedPieces s' = failedPieces s0))"
proof -
  from assms(1) have cfg: "Get_config_error P = None" and k: "0 \<le> RequiredCount P"
    and run: "Get_run P (Get_init P) evs = Some s"
    by (auto simp: Get_exec_def split: if_splits)
  from orderLimitCheckFails_error [OF assms(6)] obtain e where
    d: "downloadAndVerifyPiece (crypto P) (repairer P) (pieceSize P) env = (None, Some e)"
    and comb: "errs_Combine (errs_Combine (Some (Error_New ''invalid order limit signature: %v''))
                 (downloader_close env)) (ps_close env) = Some e"
    and nh: "\<not> Has ErrPieceHashVerifyFailed e"
    and np: "\<not> Has PiecestoreError e" by blast
  from failed_attempt_kept [OF assms(5) d np] have kept: "keptAttempt P l env1 env2 = env" .
  with d have d': "downloadAndVerifyPiece (crypto P) (repairer P) (pieceSize P)
                     (keptAttempt P l env1 env2) = (None, Some e)" by simp
  from failed_fetch_never_read [OF run k assms(2,4) d'] have none: "pieceReaders s i = None" .
  have a: "\<forall>r m sz. Get P evs = Some r \<and> stream r = Some (DecodeReaders2 m sz) \<longrightarrow> m i = None"
    using cfg assms(1) none
    by (auto simp: Get_def Get_return_def split: if_splits option.splits)
  from Get_run_trace [OF run] have el: "errlist s = sub_errors P evs"
    by (simp add: Get_init_def)
  from kept_error_recorded [OF assms(2-4) d']
  have "(i, l, None, Some e) \<in> set (fetches P evs)" .
  then have "Errorf ''node id: %s, error: %w'' e \<in> set (sub_errors P evs)"
    unfolding sub_errors_def by force
  with el have b: "Errorf ''node id: %s, error: %w'' e \<in> set (errlist s)" by simp
  have c: "\<forall>s0 s'. Get_step P s0 (Fetched i env1 env2) = Some s' \<longrightarrow>
           successfulPieces s' = successfulPieces s0
           \<and> pieceReaders s' = pieceReaders s0
           \<and> errlist s' = errlist s0 @ [Errorf ''node id: %s, error: %w'' e]
           \<and> failedPieces s' = failedPieces s0"
  proof (intro allI impI)
    fix s0 s' assume step: "Get_step P s0 (Fetched i env1 env2) = Some s'"
    from step show "successfulPieces s' = successfulPieces s0
           \<and> pieceReaders s' = pieceReaders s0
           \<and> errlist s' = errlist s0 @ [Errorf ''node id: %s, error: %w'' e]
           \<and> failedPieces s' = failedPieces s0"
    proof (rule Get_step_Fetched)
      fix l' r' e' urls
      assume f: "fetchPiece P l' env1 env2 = (r', e', urls)"
        and s': "s' = recordFetch i l' (r', e', urls) s0"
        and l': "limits P ! i = Some l'"
      from assms(4) l' have "l' = l" by simp
      with fetchPiece_kept [OF f] d' have "e' = Some e" by simp
      with s' nh show ?thesis by (simp add: recordFetch_trace)
    qed
  qed
  from kept none a comb b nh c show ?thesis by blast
qed

section \<open>The download coordinator on concrete runs\<close>

lemmas demo_defs = demo_three_def demo_two_def demo_get_def demo_signing_def demo_limit_def
  demo_order_limit_def honest_node_def tampering_node_def forging_node_def offline_node_def
  demo_repairer_def run_tampered_ok_def run_short_def closing_tamperer_def closing_forger_def
  run_three_def demo_cached_def run_retry_def

lemmas model_defs = Get_def Get_exec_def Get_config_error_def Get_init_def Get_finished_def
  Get_return_def running_def recordFetch_def fetchPiece_def downloadAndVerifyPiece_def
  readPiece_def verifyDownloaded_def verifyPieceHash_def verifyOrderLimitSignature_def
  Error_New_def

text \<open>C1 on a run of the two-of-three scheme that ends with two piece readers.\<close>

theorem Get_admission_invariant_witness:
  "\<exists>s. Get_exec demo_three run_tampered_ok = Some s
      \<and> successfulPieces s + inProgress s \<le> 2
      \<and> inProgress s = int (count_list (workers s) Fetching)
      \<and> card (dom (pieceReaders s)) = 2
      \<and> (\<exists>r. Get demo_three run_tampered_ok = Some r \<and> get_err r = None)"
proof -
  have "Get_exec demo_three run_tampered_ok \<noteq> None"
    by (simp add: demo_defs model_defs)
  then obtain s where e: "Get_exec demo_three run_tampered_ok = Some s" by blast
  have "map_option get_err (Get demo_three run_tampered_ok) = Some None"
    by (simp add: demo_defs model_defs)
  then obtain r where g: "Get demo_three run_tampered_ok = Some r" "get_err r = None"
    by blast
  have k: "RequiredCount demo_three = 2" by (simp add: demo_defs)
  from Get_admission_invariant [OF e] g k e show ?thesis by auto
qed

text \<open>C2 on a run in which one of the two limits yields a piece.\<close>

theorem Get_insufficient_pieces_witness:
  "\<exists>r. Get demo_two (run_short (tampering_node 1)) = Some r
      \<and> stream r = None
      \<and> get_err r = Some (IrreparableError 1 2
           [Errorf ''node id: %s, error: %w''
              (Class ErrPieceHashVerifyFailed (Error_New
                 ''hash from storage node, %x, does not match calculated hash, %x''))])
      \<and> failed r = [\<lparr>PieceNum = 0, NodeId = 1\<rparr>]"
proof -
  have "Get demo_two (run_short (tampering_node 1)) \<noteq> None"
    by (simp add: demo_defs model_defs)
  then obtain r where g: "Get demo_two (run_short (tampering_node 1)) = Some r" by blast
  have "Get_exec demo_two (run_short (tampering_node 1)) \<noteq> None"
    by (simp add: demo_defs model_defs)
  then obtain s where e: "Get_exec demo_two (run_short (tampering_node 1)) = Some s" by blast
  have tr: "successes demo_two (run_short (tampering_node 1)) = 1"
    "sub_errors demo_two (run_short (tampering_node 1)) =
       [Errorf ''node id: %s, error: %w''
              (Class ErrPieceHashVerifyFailed (Error_New
                 ''hash from storage node, %x, does not match calculated hash, %x''))]"
    "verification_failures demo_two (run_short (tampering_node 1)) = [\<lparr>PieceNum = 0, NodeId = 1\<rparr>]"
    by (simp_all add: successes_def sub_errors_def verification_failures_def fetches_def
          List.map_filter_simps fetch_of_def demo_defs model_defs)
  have k: "RequiredCount demo_two = 2" by (simp add: demo_defs)
  have lt: "int (successes demo_two (run_short (tampering_node 1))) < RequiredCount demo_two"
    using tr k by simp
  from Get_insufficient_pieces [OF e] g lt tr k show ?thesis by simp
qed

text \<open>
  C3 fails on the code. The node of slot 0 serves bytes whose hash differs from the hash
  it signed, and closing its downloader returns an error. The deferred \<open>errs.Combine\<close>
  makes the error of the download a group, in which \<open>ErrPieceHashVerifyFailed.Has\<close> does
  not find the class: the download is recorded as an error, and the failed pieces that
  Get returns are empty, both in the run in which Get succeeds with the pieces of the
  two other nodes and in the run in which Get fails with one piece of two.
\<close>

theorem Get_omits_hash_failure_when_close_fails:
  "pieceHashCheckFails (crypto demo_three) (repairer demo_three) (pieceSize demo_three)
      (closing_tamperer 1)
   \<and> limits demo_three ! 0 = Some (demo_limit 1)
   \<and> Fetched 0 (closing_tamperer 1) (closing_tamperer 1) \<in> set (run_three (closing_tamperer 1))
   \<and> map_option get_err (Get demo_three (run_three (closing_tamperer 1))) = Some None
   \<and> map_option failed (Get demo_three (run_three (closing_tamperer 1))) = Some []
   \<and> Fetched 0 (closing_tamperer 1) (closing_tamperer 1) \<in> set (run_short (closing_tamperer 1))
   \<and> map_option get_err (Get demo_two (run_short (closing_tamperer 1))) =
       Some (Some (IrreparableError 1 2
         [Errorf ''node id: %s, error: %w''
            (Combined
               [Class ErrPieceHashVerifyFailed (Error_New
                  ''hash from storage node, %x, does not match calculated hash, %x''),
                Class PiecestoreError (Plain ''stream closed'')])]))
   \<and> map_option failed (Get demo_two (run_short (closing_tamperer 1))) = Some []"
  by (simp add: pieceHashCheckFails_def proofs_sent_def demo_defs model_defs)

text \<open>
  C4 as stated fails: the node of slot 0 echoes an order limit that the satellite did
  not sign, its download is recorded, Get returns, and the failed pieces are empty.
\<close>

theorem Get_omits_unsigned_order_limit:
  "map_option failed (Get demo_two (run_short (forging_node 1))) = Some []
   \<and> map_option stream (Get demo_two (run_short (forging_node 1))) = Some None
   \<and> orderLimitCheckFails (crypto demo_two) (repairer demo_two) (pieceSize demo_two)
       (forging_node 1)
   \<and> Fetched 0 (forging_node 1) (forging_node 1) \<in> set (run_short (forging_node 1))"
  by (simp add: orderLimitCheckFails_def proofs_sent_def demo_defs model_defs)

text \<open>C4, as the code has it, on a run in which the satellite dials the cached address
  of the node of slot 0, the node echoes an order limit that the satellite did not sign,
  closing the downloader returns an error of the class of the piece store client, and
  the node would be honest at a second attempt: the first attempt is the one recorded.\<close>

theorem Get_rejects_unsigned_order_limit_witness:
  "\<exists>s. Get_exec demo_cached (run_retry (closing_forger 1) (honest_node 1)) = Some s
      \<and> keptAttempt demo_cached (demo_limit 1) (closing_forger 1) (honest_node 1)
          = closing_forger 1
      \<and> pieceReaders s 0 = None
      \<and> Errorf ''node id: %s, error: %w''
           (Combined [Error_New ''invalid order limit signature: %v'',
                      Class PiecestoreError (Plain ''stream closed'')]) \<in> set (errlist s)
      \<and> failedPieces s = []"
proof -
  let ?evs = "run_retry (closing_forger 1) (honest_node 1)"
  have "map_option failedPieces (Get_exec demo_cached ?evs) = Some []"
    by (simp add: demo_defs model_defs)
  then obtain s where e: "Get_exec demo_cached ?evs = Some s" and fp: "failedPieces s = []"
    by blast
  have ev: "Fetched 0 (closing_forger 1) (honest_node 1) \<in> set ?evs"
    by (simp add: run_retry_def)
  have l: "0 < length (limits demo_cached)" "limits demo_cached ! 0 = Some (demo_limit 1)"
    by (simp_all add: demo_cached_def demo_two_def demo_get_def)
  have att: "closing_forger 1
      \<in> set (attempts demo_cached (demo_limit 1) (closing_forger 1) (honest_node 1))"
    by (simp add: attempts_def)
  have f: "orderLimitCheckFails (crypto demo_cached) (repairer demo_cached)
             (pieceSize demo_cached) (closing_forger 1)"
    by (simp add: orderLimitCheckFails_def proofs_sent_def demo_defs model_defs)
  have cl: "downloader_close (closing_forger 1)
              = Some (Class PiecestoreError (Plain ''stream closed''))"
    "ps_close (closing_forger 1) = None"
    by (simp_all add: demo_defs)
  from Get_rejects_unsigned_order_limit [OF e ev l att f] e fp cl show ?thesis
    by auto
qed

section \<open>Invariants of the upload coordinator\<close>

lemma cancel_fields [simp]:
  "reported (cancel s) = reported s" "infos (cancel s) = infos s"
  "received (cancel s) = received s" "ctxErr (cancel s) = ctxErr s"
  "successfulCount (cancel s) = successfulCount s" "failureCount (cancel s) = failureCount s"
  "cancellationCount (cancel s) = cancellationCount s"
  "successfulNodes (cancel s) = successfulNodes s"
  "successfulHashes (cancel s) = successfulHashes s"
  "uploadsDialed (cancel s) = uploadsDialed s"
  by (simp_all add: cancel_def split: option.splits)

lemma Repair_inv_cancel [simp]: "Repair_inv P (cancel s) = Repair_inv P s"
  by (simp add: Repair_inv_def)

lemma count_cat_snoc:
  "count_cat P c (xs @ [x]) = count_cat P c xs + (if categorize P x = c then 1 else 0)"
  by (simp add: count_cat_def)

lemma nodes_after_snoc:
  "nodes_after P (xs @ [x]) a =
     (if categorize P x = Succeeded then (nodes_after P xs a)[info_i x := node_of P (info_i x)]
      else nodes_after P xs a)"
  by (induction xs arbitrary: a) simp_all

lemma hashes_after_snoc:
  "hashes_after P (xs @ [x]) a =
     (if categorize P x = Succeeded then (hashes_after P xs a)[info_i x := info_hash x]
      else hashes_after P xs a)"
  by (induction xs arbitrary: a) simp_all

lemma Repair_inv_PutPiece:
  assumes "Repair_step P s (PutPiece i env) = Some s'" and "Repair_inv P s"
  shows "Repair_inv P s'"
proof -
  from assms(1) have g: "i < length (repairLimits P)" "i < length (reported s)" "\<not> reported s ! i"
    by (auto split: if_splits)
  obtain h e urls where p: "putPiece (psCtxErr s) (repairLimits P ! i) env = (h, e, urls)"
    by (cases "putPiece (psCtxErr s) (repairLimits P ! i) env") auto
  with assms(1) g have s': "s' = s\<lparr>reported := (reported s)[i := True],
                     infos := infos s @ [\<lparr>info_i = i, info_err = e, info_hash = h\<rparr>],
                     uploadsDialed := uploadsDialed s @ urls\<rparr>"
    by simp
  from assms(2) have all: "list_all (\<lambda>x. info_i x < length (repairLimits P) \<and> reported s ! info_i x) (infos s)"
    and dist: "distinct (map info_i (infos s))"
    and rec: "received s \<le> length (infos s)"
    by (simp_all add: Repair_inv_def)
  from all g(3) have fresh: "i \<notin> info_i ` set (infos s)"
    by (auto simp: list_all_iff)
  from all have all': "list_all (\<lambda>x. info_i x < length (repairLimits P)
        \<and> (reported s)[i := True] ! info_i x) (infos s)"
    using g(2) by (auto simp: list_all_iff nth_list_update)
  from count_list_update [OF g(2), of True True] g(3)
  have cnt: "count_list ((reported s)[i := True]) True = count_list (reported s) True + 1"
    by simp
  from assms(2) s' g fresh dist rec all' cnt show ?thesis
    by (simp add: Repair_inv_def)
qed

lemma Repair_inv_Receive:
  assumes "Repair_step P s Receive = Some s'" and "Repair_inv P s"
  shows "Repair_inv P s'"
proof -
  define x where "x = infos s ! received s"
  from assms(1) have g: "received s < length (repairLimits P)" "received s < length (infos s)"
    "info_i x < length (repairLimits P)"
    by (auto simp: x_def Let_def split: if_splits)
  have tk: "take (Suc (received s)) (infos s) = take (received s) (infos s) @ [x]"
    using g(2) by (simp add: x_def take_Suc_conv_app_nth)
  from assms(2) have inv: "length (reported s) = length (repairLimits P)"
      "distinct (map info_i (infos s))"
      "list_all (\<lambda>x. info_i x < length (repairLimits P) \<and> reported s ! info_i x) (infos s)"
      "successfulCount s = of_nat (count_cat P Succeeded (take (received s) (infos s)))"
      "failureCount s = of_nat (count_cat P Failed (take (received s) (infos s)))"
      "cancellationCount s = of_nat (count_cat P Cancelled (take (received s) (infos s)))"
      "successfulNodes s =
          nodes_after P (take (received s) (infos s)) (replicate (length (repairLimits P)) None)"
      "successfulHashes s =
          hashes_after P (take (received s) (infos s)) (replicate (length (repairLimits P)) None)"
    by (simp_all add: Repair_inv_def)
  from assms(2) have cnt: "count_list (reported s) True = length (infos s)"
    by (simp add: Repair_inv_def)
  have rest: "received s' = Suc (received s)" "infos s' = infos s" "reported s' = reported s"
    using assms(1) g
    by (auto simp: x_def Let_def split: if_splits option.splits)
  have sc: "successfulCount s' = of_nat (count_cat P Succeeded (take (received s) (infos s) @ [x]))"
    and fc: "failureCount s' = of_nat (count_cat P Failed (take (received s) (infos s) @ [x]))"
    and cc: "cancellationCount s' = of_nat (count_cat P Cancelled (take (received s) (infos s) @ [x]))"
    using assms(1) g inv(4-6)
    by (auto simp: x_def [symmetric] Let_def count_cat_snoc categorize_def
             split: if_splits option.splits)
  have sn: "successfulNodes s' =
          nodes_after P (take (received s) (infos s) @ [x]) (replicate (length (repairLimits P)) None)"
    and sh: "successfulHashes s' =
          hashes_after P (take (received s) (infos s) @ [x]) (replicate (length (repairLimits P)) None)"
    using assms(1) g inv(7,8)
    by (auto simp: x_def [symmetric] Let_def nodes_after_snoc hashes_after_snoc categorize_def
             node_of_def split: if_splits option.splits)
  from inv(1-3) cnt rest g(2) sc fc cc sn sh tk show ?thesis
    by (simp add: Repair_inv_def)
qed

lemma Repair_inv_step:
  assumes "Repair_step P s ev = Some s'" and "Repair_inv P s"
  shows "Repair_inv P s'"
proof (cases ev)
  case (ParentDone e)
  with assms show ?thesis by (auto simp: Repair_inv_def split: if_splits)
next
  case TimerFired
  with assms show ?thesis by (auto split: if_splits)
next
  case (PutPiece i env)
  with assms show ?thesis by (auto intro: Repair_inv_PutPiece)
next
  case Receive
  with assms show ?thesis by (auto intro: Repair_inv_Receive)
qed

lemma Repair_inv_run:
  "Repair_run P s evs = Some s' \<Longrightarrow> Repair_inv P s \<Longrightarrow> Repair_inv P s'"
proof (induction evs arbitrary: s)
  case Nil
  then show ?case by simp
next
  case (Cons ev evs)
  then show ?case by (auto split: option.splits dest: Repair_inv_step)
qed

lemma Repair_inv_init: "Repair_inv P (Repair_init P)"
  by (simp add: Repair_inv_def Repair_init_def count_cat_def count_list_replicate_other)

lemma Repair_exec_inv:
  assumes "Repair_exec P evs = Some s"
  shows "Repair_inv P s"
proof -
  from assms have "Repair_run P (Repair_init P) evs = Some s"
    by (auto simp: Repair_exec_def split: if_splits)
  from Repair_inv_run [OF this Repair_inv_init] show ?thesis .
qed

lemma nodes_after_length [simp]: "length (nodes_after P xs a) = length a"
  by (induction xs arbitrary: a) simp_all

lemma hashes_after_length [simp]: "length (hashes_after P xs a) = length a"
  by (induction xs arbitrary: a) simp_all

lemma nodes_after_untouched:
  "j \<notin> info_i ` set xs \<Longrightarrow> nodes_after P xs a ! j = a ! j"
  by (induction xs arbitrary: a) (auto simp: nth_list_update)

lemma hashes_after_untouched:
  "j \<notin> info_i ` set xs \<Longrightarrow> hashes_after P xs a ! j = a ! j"
  by (induction xs arbitrary: a) (auto simp: nth_list_update)

lemma nodes_after_at:
  "distinct (map info_i xs) \<Longrightarrow> x \<in> set xs \<Longrightarrow> info_i x < length a \<Longrightarrow>
     nodes_after P xs a ! info_i x =
       (if categorize P x = Succeeded then node_of P (info_i x) else a ! info_i x)"
proof (induction xs arbitrary: a)
  case Nil
  then show ?case by simp
next
  case (Cons y ys)
  let ?a = "if categorize P y = Succeeded then a[info_i y := node_of P (info_i y)] else a"
  show ?case
  proof (cases "x = y")
    case True
    with Cons.prems(1) have "info_i x \<notin> info_i ` set ys" by auto
    from nodes_after_untouched [OF this] True Cons.prems(3) show ?thesis by simp
  next
    case False
    with Cons.prems have mem: "x \<in> set ys" and d: "distinct (map info_i ys)"
      and ne: "info_i y \<noteq> info_i x"
      by auto
    from Cons.prems(3) have "info_i x < length ?a" by simp
    from Cons.IH [OF d mem this] ne show ?thesis by simp
  qed
qed

lemma hashes_after_at:
  "distinct (map info_i xs) \<Longrightarrow> x \<in> set xs \<Longrightarrow> info_i x < length a \<Longrightarrow>
     hashes_after P xs a ! info_i x =
       (if categorize P x = Succeeded then info_hash x else a ! info_i x)"
proof (induction xs arbitrary: a)
  case Nil
  then show ?case by simp
next
  case (Cons y ys)
  let ?a = "if categorize P y = Succeeded then a[info_i y := info_hash y] else a"
  show ?case
  proof (cases "x = y")
    case True
    with Cons.prems(1) have "info_i x \<notin> info_i ` set ys" by auto
    from hashes_after_untouched [OF this] True Cons.prems(3) show ?thesis by simp
  next
    case False
    with Cons.prems have mem: "x \<in> set ys" and d: "distinct (map info_i ys)"
      and ne: "info_i y \<noteq> info_i x"
      by auto
    from Cons.prems(3) have "info_i x < length ?a" by simp
    from Cons.IH [OF d mem this] ne show ?thesis by simp
  qed
qed

lemma finished_all_received:
  assumes "Repair_inv P s" and "Repair_finished P s"
  shows "length (infos s) = length (repairLimits P)"
    and "take (received s) (infos s) = infos s"
    and "mset (map info_i (infos s)) = mset [0..<length (repairLimits P)]"
proof -
  let ?n = "length (repairLimits P)" and ?L = "map info_i (infos s)"
  from assms have d: "distinct ?L" and sub: "set ?L \<subseteq> {0..<?n}"
    and rec: "received s \<le> length (infos s)" and fin: "received s = ?n"
    by (auto simp: Repair_inv_def Repair_finished_def list_all_iff)
  from distinct_card [OF d] have cardL: "card (set ?L) = length ?L" .
  then have "length ?L = card (set ?L)" by simp
  also from sub have "\<dots> \<le> card {0..<?n}" by (intro card_mono) simp_all
  finally have le: "length (infos s) \<le> ?n" by simp
  with rec fin show len: "length (infos s) = ?n" by simp
  with fin show "take (received s) (infos s) = infos s" by simp
  from cardL len have "card (set ?L) = card {0..<?n}" by simp
  with sub have "set ?L = {0..<?n}" by (intro card_subset_eq) simp_all
  then have "set ?L = set [0..<?n]" by simp
  moreover have "distinct [0..<?n]" by simp
  ultimately show "mset ?L = mset [0..<?n]"
    using d set_eq_iff_mset_eq_distinct [of ?L "[0..<?n]"] by blast
qed

lemma count_cat_total:
  "count_cat P Ignored xs + count_cat P Succeeded xs + count_cat P Failed xs
     + count_cat P Cancelled xs = length xs"
proof (induction xs)
  case Nil
  then show ?case by (simp add: count_cat_def)
next
  case (Cons x xs)
  then show ?case by (cases "categorize P x") (simp_all add: count_cat_def)
qed

lemma nonNilCount_filter: "nonNilCount ls = int (length (filter (\<lambda>l. l \<noteq> None) ls))"
  by (induction ls rule: nonNilCount.induct) simp_all

lemma filter_nth_length:
  "length (filter (\<lambda>j. Q (ls ! j)) [0..<length ls]) = length (filter Q ls)"
proof -
  have "filter Q (map (nth ls) [0..<length ls]) = map (nth ls) (filter (\<lambda>j. Q (ls ! j)) [0..<length ls])"
    by (simp add: filter_map comp_def)
  then have "length (filter Q (map (nth ls) [0..<length ls])) = length (filter (\<lambda>j. Q (ls ! j)) [0..<length ls])"
    by simp
  then show ?thesis by (simp add: map_nth)
qed

lemma count_ignored:
  assumes "list_all (\<lambda>x. info_i x < length (repairLimits P)) xs"
  shows "count_cat P Ignored xs = length (filter (\<lambda>j. repairLimits P ! j = None) (map info_i xs))"
  using assms
  by (induction xs) (auto simp: count_cat_def categorize_def split: option.splits)

lemma finished_counted:
  assumes "Repair_inv P s" and "Repair_finished P s"
  shows "int (count_cat P Succeeded (infos s) + count_cat P Failed (infos s)
           + count_cat P Cancelled (infos s)) = nonNilCount (repairLimits P)"
proof -
  let ?ls = "repairLimits P" and ?n = "length (repairLimits P)"
  from assms(1) have all: "list_all (\<lambda>x. info_i x < ?n) (infos s)"
    by (auto simp: Repair_inv_def list_all_iff)
  from finished_all_received [OF assms] have len: "length (infos s) = ?n"
    and perm: "mset (map info_i (infos s)) = mset [0..<?n]" by simp_all
  have "count_cat P Ignored (infos s)
          = size (filter_mset (\<lambda>j. ?ls ! j = None) (mset (map info_i (infos s))))"
    using count_ignored [OF all] by (metis mset_filter size_mset)
  also have "\<dots> = length (filter (\<lambda>j. ?ls ! j = None) [0..<?n])"
    unfolding perm by (metis mset_filter size_mset)
  also have "\<dots> = length (filter (\<lambda>l. l = None) ?ls)"
    by (rule filter_nth_length)
  finally have ign: "count_cat P Ignored (infos s) = length (filter (\<lambda>l. l = None) ?ls)" .
  have "length (filter (\<lambda>l. l = None) ?ls) + length (filter (\<lambda>l. l \<noteq> None) ?ls) = ?n"
    using sum_length_filter_compl [of "\<lambda>l. l = None" ?ls] by simp
  with ign count_cat_total [of P "infos s"] len
  have "count_cat P Succeeded (infos s) + count_cat P Failed (infos s)
           + count_cat P Cancelled (infos s) = length (filter (\<lambda>l. l \<noteq> None) ?ls)"
    by linarith
  then show ?thesis by (simp add: nonNilCount_filter)
qed

section \<open>The upload coordinator can always return\<close>

text \<open>From every state that a run reaches, some schedule leads to the return of
  Repair: the tasks that have not reported do so, and the loop receives what is on the
  channel.\<close>

lemma count_list_bool: "count_list xs True + count_list xs False = length xs"
  by (induction xs) auto

lemma PutPiece_progress:
  assumes "Repair_inv P s" and "i < length (reported s)" and "\<not> reported s ! i"
  shows "\<exists>s'. Repair_step P s (PutPiece i env) = Some s'
           \<and> count_list (reported s') False < count_list (reported s) False
           \<and> received s' = received s"
proof -
  from assms(1,2) have len: "i < length (repairLimits P)"
    by (simp add: Repair_inv_def)
  obtain h e urls where p: "putPiece (psCtxErr s) (repairLimits P ! i) env = (h, e, urls)"
    by (cases "putPiece (psCtxErr s) (repairLimits P ! i) env") auto
  from count_list_update [OF assms(2), of True False] assms(3)
  have "count_list ((reported s)[i := True]) False + 1 = count_list (reported s) False"
    by simp
  with assms(2,3) len p show ?thesis by auto
qed

lemma Receive_progress:
  assumes "Repair_inv P s" and "received s < length (repairLimits P)"
    and "count_list (reported s) False = 0"
  shows "\<exists>s'. Repair_step P s Receive = Some s' \<and> reported s' = reported s
           \<and> received s' = received s + 1"
proof -
  from assms(1) have len: "length (reported s) = length (repairLimits P)"
    and cnt: "count_list (reported s) True = length (infos s)"
    and all: "list_all (\<lambda>x. info_i x < length (repairLimits P)) (infos s)"
    by (auto simp: Repair_inv_def list_all_iff)
  from count_list_bool [of "reported s"] assms(3) len cnt
  have "length (infos s) = length (repairLimits P)" by simp
  with assms(2) have r: "received s < length (infos s)" by simp
  with all have "info_i (infos s ! received s) < length (repairLimits P)"
    by (simp add: list_all_length)
  with assms(2) r show ?thesis
    by (auto simp: Let_def split: option.splits)
qed

lemma Repair_run_append:
  "Repair_run P s (xs @ ys) =
     (case Repair_run P s xs of None \<Rightarrow> None | Some s1 \<Rightarrow> Repair_run P s1 ys)"
  by (induction xs arbitrary: s) (auto split: option.splits)

lemma Repair_can_finish:
  "Repair_inv P s \<Longrightarrow> \<exists>evs s'. Repair_run P s evs = Some s' \<and> Repair_finished P s'"
proof (induction "count_list (reported s) False + (length (repairLimits P) - received s)"
         arbitrary: s rule: less_induct)
  case less
  let ?m = "\<lambda>s. count_list (reported s) False + (length (repairLimits P) - received s)"
  have next_step: "Repair_finished P s \<or> (\<exists>ev s1. Repair_step P s ev = Some s1 \<and> ?m s1 < ?m s)"
  proof (cases "0 < count_list (reported s) False")
    case True
    from count_list_pos_nth [OF this] obtain i where "i < length (reported s)" "\<not> reported s ! i"
      by blast
    from PutPiece_progress [OF less.prems this, of failing_node]
    obtain s1 where "Repair_step P s (PutPiece i failing_node) = Some s1"
      "count_list (reported s1) False < count_list (reported s) False"
      "received s1 = received s" by blast
    then have "Repair_step P s (PutPiece i failing_node) = Some s1 \<and> ?m s1 < ?m s"
      by simp
    then show ?thesis by blast
  next
    case False
    then have all: "count_list (reported s) False = 0" by simp
    show ?thesis
    proof (cases "received s < length (repairLimits P)")
      case True
      from Receive_progress [OF less.prems True all]
      obtain s1 where "Repair_step P s Receive = Some s1" "reported s1 = reported s"
        "received s1 = received s + 1" by blast
      with True have "Repair_step P s Receive = Some s1 \<and> ?m s1 < ?m s"
        by simp
      then show ?thesis by blast
    next
      case False
      from less.prems have "received s \<le> length (infos s)"
        and "count_list (reported s) True = length (infos s)"
        and "length (reported s) = length (repairLimits P)"
        by (simp_all add: Repair_inv_def)
      with count_list_bool [of "reported s"] False have "received s = length (repairLimits P)"
        by simp
      then show ?thesis by (simp add: Repair_finished_def)
    qed
  qed
  then show ?case
  proof
    assume "Repair_finished P s"
    then have "Repair_run P s [] = Some s \<and> Repair_finished P s" by simp
    then show ?thesis by blast
  next
    assume "\<exists>ev s1. Repair_step P s ev = Some s1 \<and> ?m s1 < ?m s"
    then obtain ev s1 where step: "Repair_step P s ev = Some s1" and lt: "?m s1 < ?m s"
      by blast
    from Repair_inv_step [OF step less.prems] have "Repair_inv P s1" .
    from less.hyps [OF lt this] obtain evs' s' where "Repair_run P s1 evs' = Some s'"
      "Repair_finished P s'" by blast
    with step have "Repair_run P s (ev # evs') = Some s' \<and> Repair_finished P s'" by simp
    then show ?thesis by blast
  qed
qed

lemma Repair_can_return:
  assumes "Repair_exec P evs = Some s"
  shows "\<exists>evs' r. Repair P (evs @ evs') = Some r"
proof -
  from assms have cfg: "Repair_config_error P = None" and enc: "EncodeReader2 P = None"
    and run: "Repair_run P (Repair_init P) evs = Some s"
    by (auto simp: Repair_exec_def split: if_splits)
  from Repair_can_finish [OF Repair_exec_inv [OF assms]] obtain evs' s' where
    "Repair_run P s evs' = Some s'" and fin: "Repair_finished P s'" by blast
  with run have "Repair_run P (Repair_init P) (evs @ evs') = Some s'"
    by (simp add: Repair_run_append)
  with cfg enc fin have "Repair P (evs @ evs') = Some (Repair_return P s')"
    by (simp add: Repair_def Repair_exec_def)
  then show ?thesis by blast
qed

section \<open>Properties of the upload coordinator and of the configuration checks\<close>

lemma int32_of_nat_eq_0: "n < 2 ^ 32 \<Longrightarrow> (of_nat n :: int32) = 0 \<longleftrightarrow> n = 0"
proof
  assume b: "n < 2 ^ 32" and z: "(of_nat n :: int32) = 0"
  from z have "unat (of_nat n :: int32) = 0" by simp
  then have "n mod 2 ^ 32 = 0" by (simp add: unat_of_nat)
  with b show "n = 0" by simp
next
  assume "n = 0" then show "(of_nat n :: int32) = 0" by simp
qed

lemma count_cat_le: "count_cat P c xs \<le> length xs"
  by (simp add: count_cat_def)

lemma Repair_returns:
  assumes "Repair P evs = Some r" and "Repair_config_error P = None" and "EncodeReader2 P = None"
  obtains s where "Repair_exec P evs = Some s" and "Repair_finished P s"
    and "r = Repair_return P s"
  using assms by (auto simp: Repair_def split: option.splits if_splits)

text \<open>
  C6. Let Repair pass its configuration checks, with fewer than \<open>2^32\<close> slots (the
  success counter is an int32). When the encoder fails, no upload is started and the
  error of the encoder is returned with empty results. Otherwise every run can be
  continued to the return, and when the context of the call is not done at the return,
  the error is non-nil exactly when no received result is a success; with no success
  both result slices are nil, and with a success the error is nil and the two slices are
  returned as the loop left them.
\<close>

theorem Repair_error_iff_no_success:
  assumes "Repair_config_error P = None" and "length (repairLimits P) < 2 ^ 32"
  shows "(\<forall>e. EncodeReader2 P = Some e \<longrightarrow>
            Repair P [] = Some \<lparr>nodes = [], hashes = [], repair_err = Some e,
                                upload_dials = [], encoded = True\<rparr>)
    \<and> (\<forall>evs s. Repair_exec P evs = Some s \<longrightarrow> (\<exists>evs' r. Repair P (evs @ evs') = Some r))
    \<and> (\<forall>evs s r. Repair P evs = Some r \<and> Repair_exec P evs = Some s \<and> ctxErr s = None \<longrightarrow>
           (repair_err r \<noteq> None) = (count_cat P Succeeded (infos s) = 0)
           \<and> (count_cat P Succeeded (infos s) = 0 \<longrightarrow> nodes r = [] \<and> hashes r = [])
           \<and> (count_cat P Succeeded (infos s) \<noteq> 0 \<longrightarrow>
                 repair_err r = None \<and> nodes r = successfulNodes s
                 \<and> hashes r = successfulHashes s))"
proof -
  have enc: "\<forall>e. EncodeReader2 P = Some e \<longrightarrow>
            Repair P [] = Some \<lparr>nodes = [], hashes = [], repair_err = Some e,
                                upload_dials = [], encoded = True\<rparr>"
    using assms(1) by (simp add: Repair_def)
  have can: "\<forall>evs s. Repair_exec P evs = Some s \<longrightarrow> (\<exists>evs' r. Repair P (evs @ evs') = Some r)"
    using Repair_can_return by blast
  have run: "\<forall>evs s r. Repair P evs = Some r \<and> Repair_exec P evs = Some s \<and> ctxErr s = None \<longrightarrow>
           (repair_err r \<noteq> None) = (count_cat P Succeeded (infos s) = 0)
           \<and> (count_cat P Succeeded (infos s) = 0 \<longrightarrow> nodes r = [] \<and> hashes r = [])
           \<and> (count_cat P Succeeded (infos s) \<noteq> 0 \<longrightarrow>
                 repair_err r = None \<and> nodes r = successfulNodes s
                 \<and> hashes r = successfulHashes s)"
  proof (intro allI impI, elim conjE)
    fix evs s r
    assume get: "Repair P evs = Some r" and ex: "Repair_exec P evs = Some s"
      and ctx: "ctxErr s = None"
    from ex have e2: "EncodeReader2 P = None"
      by (auto simp: Repair_exec_def split: if_splits)
    from get assms(1) e2 ex have fin: "Repair_finished P s" and r: "r = Repair_return P s"
      by (auto elim!: Repair_returns)
    from Repair_exec_inv [OF ex] have inv: "Repair_inv P s" .
    from finished_all_received [OF inv fin] have len: "length (infos s) = length (repairLimits P)"
      and tk: "take (received s) (infos s) = infos s" by simp_all
    from inv tk have sc: "successfulCount s = of_nat (count_cat P Succeeded (infos s))"
      by (simp add: Repair_inv_def)
    from count_cat_le [of P Succeeded "infos s"] len assms(2)
    have "count_cat P Succeeded (infos s) < 2 ^ 32" by simp
    from int32_of_nat_eq_0 [OF this] sc
    have zero: "(successfulCount s = 0) = (count_cat P Succeeded (infos s) = 0)" by simp
    from r ctx zero
    show "(repair_err r \<noteq> None) = (count_cat P Succeeded (infos s) = 0)
           \<and> (count_cat P Succeeded (infos s) = 0 \<longrightarrow> nodes r = [] \<and> hashes r = [])
           \<and> (count_cat P Succeeded (infos s) \<noteq> 0 \<longrightarrow>
                 repair_err r = None \<and> nodes r = successfulNodes s
                 \<and> hashes r = successfulHashes s)"
      by (simp add: Repair_return_def)
  qed
  from enc can run show ?thesis by blast
qed

lemma categorize_nil:
  "info_i x < length (repairLimits P) \<Longrightarrow>
     (categorize P x = Ignored) = (repairLimits P ! info_i x = None)"
  by (auto simp: categorize_def split: option.splits)

lemma categorize_Succeeded:
  "info_i x < length (repairLimits P) \<Longrightarrow>
     (categorize P x = Succeeded) = (repairLimits P ! info_i x \<noteq> None \<and> info_err x = None)"
  by (auto simp: categorize_def split: option.splits)

text \<open>
  C8. The task of a nil slot dials no node: \<open>putPiece\<close> returns no hash and only the
  error of closing the reader it drained. When the loop of Repair has received all
  results, there is exactly one result per slot; the three counters are the numbers of
  results that are successes, failures and cancellations, and these numbers add up to the
  number of non-nil slots. The result of a nil slot is in none of the three categories
  and leaves its entries of both slices nil. The result of a non-nil slot is in one of
  the three; its node entry is set exactly when the upload returned no error, its hash
  entry is then the returned hash, so both entries are set exactly when the upload
  returned a hash without error.
\<close>

theorem Repair_slot_accounting:
  assumes "Repair_exec P evs = Some s" and "Repair_finished P s"
  shows "(\<forall>c env. putPiece c None env = (None, data_close env, []))
    \<and> mset (map info_i (infos s)) = mset [0..<length (repairLimits P)]
    \<and> successfulCount s = of_nat (count_cat P Succeeded (infos s))
    \<and> failureCount s = of_nat (count_cat P Failed (infos s))
    \<and> cancellationCount s = of_nat (count_cat P Cancelled (infos s))
    \<and> int (count_cat P Succeeded (infos s) + count_cat P Failed (infos s)
           + count_cat P Cancelled (infos s)) = nonNilCount (repairLimits P)
    \<and> (\<forall>x \<in> set (infos s).
          (repairLimits P ! info_i x = None \<longrightarrow>
             categorize P x = Ignored \<and> successfulNodes s ! info_i x = None
             \<and> successfulHashes s ! info_i x = None)
          \<and> (repairLimits P ! info_i x \<noteq> None \<longrightarrow>
               categorize P x \<noteq> Ignored
               \<and> (successfulNodes s ! info_i x \<noteq> None) = (info_err x = None)
               \<and> successfulNodes s ! info_i x =
                   (if info_err x = None then node_of P (info_i x) else None)
               \<and> successfulHashes s ! info_i x =
                   (if info_err x = None then info_hash x else None)
               \<and> (successfulNodes s ! info_i x \<noteq> None \<and> successfulHashes s ! info_i x \<noteq> None)
                   = (info_hash x \<noteq> None \<and> info_err x = None)))"
proof -
  let ?n = "length (repairLimits P)"
  from Repair_exec_inv [OF assms(1)] have inv: "Repair_inv P s" .
  from finished_all_received [OF inv assms(2)]
  have tk: "take (received s) (infos s) = infos s"
    and perm: "mset (map info_i (infos s)) = mset [0..<?n]" by simp_all
  from inv tk have counts: "successfulCount s = of_nat (count_cat P Succeeded (infos s))"
      "failureCount s = of_nat (count_cat P Failed (infos s))"
      "cancellationCount s = of_nat (count_cat P Cancelled (infos s))"
    and sn: "successfulNodes s = nodes_after P (infos s) (replicate ?n None)"
    and sh: "successfulHashes s = hashes_after P (infos s) (replicate ?n None)"
    and d: "distinct (map info_i (infos s))"
    and all: "list_all (\<lambda>x. info_i x < ?n) (infos s)"
    by (auto simp: Repair_inv_def list_all_iff)
  have slots: "\<forall>x \<in> set (infos s).
          (repairLimits P ! info_i x = None \<longrightarrow>
             categorize P x = Ignored \<and> successfulNodes s ! info_i x = None
             \<and> successfulHashes s ! info_i x = None)
          \<and> (repairLimits P ! info_i x \<noteq> None \<longrightarrow>
               categorize P x \<noteq> Ignored
               \<and> (successfulNodes s ! info_i x \<noteq> None) = (info_err x = None)
               \<and> successfulNodes s ! info_i x =
                   (if info_err x = None then node_of P (info_i x) else None)
               \<and> successfulHashes s ! info_i x =
                   (if info_err x = None then info_hash x else None)
               \<and> (successfulNodes s ! info_i x \<noteq> None \<and> successfulHashes s ! info_i x \<noteq> None)
                   = (info_hash x \<noteq> None \<and> info_err x = None))"
  proof
    fix x assume x: "x \<in> set (infos s)"
    with all have lt: "info_i x < ?n" by (simp add: list_all_iff)
    from nodes_after_at [OF d x, of "replicate ?n None" P] lt sn
    have n: "successfulNodes s ! info_i x =
               (if categorize P x = Succeeded then node_of P (info_i x) else None)" by simp
    from hashes_after_at [OF d x, of "replicate ?n None" P] lt sh
    have h: "successfulHashes s ! info_i x =
               (if categorize P x = Succeeded then info_hash x else None)" by simp
    show "(repairLimits P ! info_i x = None \<longrightarrow>
             categorize P x = Ignored \<and> successfulNodes s ! info_i x = None
             \<and> successfulHashes s ! info_i x = None)
          \<and> (repairLimits P ! info_i x \<noteq> None \<longrightarrow>
               categorize P x \<noteq> Ignored
               \<and> (successfulNodes s ! info_i x \<noteq> None) = (info_err x = None)
               \<and> successfulNodes s ! info_i x =
                   (if info_err x = None then node_of P (info_i x) else None)
               \<and> successfulHashes s ! info_i x =
                   (if info_err x = None then info_hash x else None)
               \<and> (successfulNodes s ! info_i x \<noteq> None \<and> successfulHashes s ! info_i x \<noteq> None)
                   = (info_hash x \<noteq> None \<and> info_err x = None))"
      using n h categorize_nil [OF lt] categorize_Succeeded [OF lt]
      by (auto simp: node_of_def split: option.splits)
  qed
  have nil: "\<forall>c env. putPiece c None env = (None, data_close env, [])"
    by (simp add: putPiece_def)
  from nil perm counts finished_counted [OF inv assms(2)] slots show ?thesis by blast
qed


lemma errors_Is_Combine_left:
  "errors_Is a t \<Longrightarrow> errs_Combine (Some a) b = Some x \<Longrightarrow> errors_Is x t"
  by (cases b) auto

lemma IsCanceled_Combine_left:
  "IsCanceled a \<Longrightarrow> errs_Combine (Some a) b = Some x \<Longrightarrow> IsCanceled x"
  by (cases b) (auto simp: IsCanceled_def)

lemma putPiece_cancelled:
  assumes "put_dial_err env = None" and "upload_err env = Some e"
  shows "\<exists>err. putPiece (Some Canceled) (Some l) env =
             (upload_hash env, Some err, [(StorageNodeId (Limit l), StorageNodeAddress l)])
           \<and> errors_Is err Canceled \<and> IsCanceled err"
proof -
  let ?c = "Combined [Canceled, e]"
  have c: "errors_Is ?c Canceled" "IsCanceled ?c"
    by (simp_all add: IsCanceled_def)
  obtain e1 where e1: "errs_Combine (Some ?c) (put_ps_close env) = Some e1"
    by (cases "put_ps_close env") auto
  obtain e2 where e2: "errs_Combine (Some e1) (data_close env) = Some e2"
    by (cases "data_close env") auto
  from errors_Is_Combine_left [OF c(1) e1] have "errors_Is e1 Canceled" .
  from errors_Is_Combine_left [OF this e2] have i2: "errors_Is e2 Canceled" .
  from IsCanceled_Combine_left [OF c(2) e1] have "IsCanceled e1" .
  from IsCanceled_Combine_left [OF this e2] have c2: "IsCanceled e2" .
  from assms e1 e2 have "putPiece (Some Canceled) (Some l) env =
             (upload_hash env, Some e2, [(StorageNodeId (Limit l), StorageNodeAddress l)])"
    by (simp add: putPiece_def)
  with i2 c2 show ?thesis by blast
qed

text \<open>
  C9. A piece upload is the call of \<open>ps.UploadReader\<close> at line 464, reached once the
  dial has succeeded. When it fails while \<open>ctx.Err()\<close> is \<open>context.Canceled\<close>, the
  error that \<open>putPiece\<close> returns and sends on the channel has \<open>context.Canceled\<close> on
  its unwrap chain, whatever the upload error and the close errors are, so
  \<open>errors.Is\<close> and \<open>errs2.IsCanceled\<close> hold for it; the result is a cancellation,
  and the loop that receives it adds one to the cancellation counter and leaves the
  failure counter and the success counter unchanged.
\<close>

theorem putPiece_cancelled_upload:
  assumes "Repair_step P s (PutPiece i env) = Some s'" and "psCtxErr s = Some Canceled"
    and "repairLimits P ! i = Some l" and "put_dial_err env = None"
    and "upload_err env = Some e"
  shows "\<exists>err. putPiece (psCtxErr s) (repairLimits P ! i) env =
             (upload_hash env, Some err, [(StorageNodeId (Limit l), StorageNodeAddress l)])
      \<and> infos s' = infos s @ [\<lparr>info_i = i, info_err = Some err, info_hash = upload_hash env\<rparr>]
      \<and> errors_Is err Canceled \<and> IsCanceled err
      \<and> categorize P \<lparr>info_i = i, info_err = Some err, info_hash = upload_hash env\<rparr> = Cancelled
      \<and> (\<forall>t t'. Repair_step P t Receive = Some t'
                  \<and> infos t ! received t =
                      \<lparr>info_i = i, info_err = Some err, info_hash = upload_hash env\<rparr>
            \<longrightarrow> cancellationCount t' = cancellationCount t + 1
                \<and> failureCount t' = failureCount t
                \<and> successfulCount t' = successfulCount t)"
proof -
  from putPiece_cancelled [OF assms(4,5), of l] obtain err where
    p: "putPiece (Some Canceled) (Some l) env =
          (upload_hash env, Some err, [(StorageNodeId (Limit l), StorageNodeAddress l)])"
    and isc: "errors_Is err Canceled" and c: "IsCanceled err" by blast
  let ?x = "\<lparr>info_i = i, info_err = Some err, info_hash = upload_hash env\<rparr>"
  from assms(1) have g: "i < length (repairLimits P)"
    by (auto split: if_splits)
  from assms(1-3) p have infos: "infos s' = infos s @ [?x]"
    by (auto split: if_splits)
  from g assms(3) c have cat: "categorize P ?x = Cancelled"
    by (simp add: categorize_def)
  have recv: "\<forall>t t'. Repair_step P t Receive = Some t' \<and> infos t ! received t = ?x
            \<longrightarrow> cancellationCount t' = cancellationCount t + 1
                \<and> failureCount t' = failureCount t
                \<and> successfulCount t' = successfulCount t"
    using assms(3) c by (auto simp: Let_def split: if_splits)
  from p infos isc c cat recv assms(2,3) show ?thesis by auto
qed

lemma repeated_not_distinct_filter:
  assumes "i < j" and "j < length xs" and "xs ! i = xs ! j" and "Q (xs ! i)"
  shows "\<not> distinct (filter Q xs)"
proof -
  from assms(2) have split: "xs = take j xs @ xs ! j # drop (Suc j) xs"
    by (rule id_take_nth_drop)
  from assms(1,2) have "take j xs ! i = xs ! i" and "i < length (take j xs)" by simp_all
  then have "xs ! i \<in> set (take j xs)" by (metis nth_mem)
  with assms(3,4) have "xs ! j \<in> set (filter Q (take j xs))" by simp
  moreover have "filter Q xs = filter Q (take j xs) @ filter Q (xs ! j # drop (Suc j) xs)"
    using split by (metis filter_append)
  ultimately show ?thesis using assms(3,4) by auto
qed

text \<open>
  C7, as the code has it. Get fails its configuration check when the number of limits
  differs from the total count or fewer than the required count are non-nil; Repair
  fails its check when the number of limits differs from the total count or two non-nil
  slots carry the same non-zero node ID. A call that fails its check has one run, the
  one without any step: it returns the error, with empty results, no node dialled and
  (for Repair) the encoder not called.
\<close>

theorem config_errors_before_network:
  "(int (length (limits G)) \<noteq> TotalCount G \<or> nonNilCount (limits G) < RequiredCount G
      \<longrightarrow> Get_config_error G \<noteq> None)
   \<and> (\<forall>e. Get_config_error G = Some e \<longrightarrow>
         Get G evs =
           (if evs = [] then Some \<lparr>stream = None, failed = [], get_err = Some e, dials = []\<rparr>
            else None))
   \<and> (int (length (repairLimits R)) \<noteq> rsTotalCount R
       \<or> (\<exists>i j a b. i < j \<and> j < length (repairLimits R)
             \<and> repairLimits R ! i = Some a \<and> repairLimits R ! j = Some b
             \<and> StorageNodeId (Limit a) = StorageNodeId (Limit b)
             \<and> StorageNodeId (Limit a) \<noteq> 0)
      \<longrightarrow> Repair_config_error R \<noteq> None)
   \<and> (\<forall>e. Repair_config_error R = Some e \<longrightarrow>
         Repair R revs =
           (if revs = [] then
              Some \<lparr>nodes = [], hashes = [], repair_err = Some e, upload_dials = [],
                    encoded = False\<rparr>
            else None))"
proof -
  have g1: "int (length (limits G)) \<noteq> TotalCount G \<or> nonNilCount (limits G) < RequiredCount G
      \<longrightarrow> Get_config_error G \<noteq> None"
    by (auto simp: Get_config_error_def)
  have g2: "\<forall>e. Get_config_error G = Some e \<longrightarrow>
         Get G evs =
           (if evs = [] then Some \<lparr>stream = None, failed = [], get_err = Some e, dials = []\<rparr>
            else None)"
    by (simp add: Get_def)
  have r1: "int (length (repairLimits R)) \<noteq> rsTotalCount R
       \<or> (\<exists>i j a b. i < j \<and> j < length (repairLimits R)
             \<and> repairLimits R ! i = Some a \<and> repairLimits R ! j = Some b
             \<and> StorageNodeId (Limit a) = StorageNodeId (Limit b)
             \<and> StorageNodeId (Limit a) \<noteq> 0)
      \<longrightarrow> Repair_config_error R \<noteq> None"
  proof
    assume "int (length (repairLimits R)) \<noteq> rsTotalCount R
       \<or> (\<exists>i j a b. i < j \<and> j < length (repairLimits R)
             \<and> repairLimits R ! i = Some a \<and> repairLimits R ! j = Some b
             \<and> StorageNodeId (Limit a) = StorageNodeId (Limit b)
             \<and> StorageNodeId (Limit a) \<noteq> 0)"
    then show "Repair_config_error R \<noteq> None"
    proof
      assume "int (length (repairLimits R)) \<noteq> rsTotalCount R"
      then show ?thesis by (simp add: Repair_config_error_def)
    next
      assume "\<exists>i j a b. i < j \<and> j < length (repairLimits R)
             \<and> repairLimits R ! i = Some a \<and> repairLimits R ! j = Some b
             \<and> StorageNodeId (Limit a) = StorageNodeId (Limit b)
             \<and> StorageNodeId (Limit a) \<noteq> 0"
      then obtain i j a b where ij: "i < j" "j < length (repairLimits R)"
        and a: "repairLimits R ! i = Some a" and b: "repairLimits R ! j = Some b"
        and same: "StorageNodeId (Limit a) = StorageNodeId (Limit b)"
        and nz: "StorageNodeId (Limit a) \<noteq> 0" by blast
      let ?ids = "limit_ids (repairLimits R)"
      from ij have len: "j < length ?ids" by (simp add: limit_ids_def)
      from ij a b same have eq: "?ids ! i = ?ids ! j" by (simp add: limit_ids_def)
      from ij a nz have "?ids ! i \<noteq> 0" by (simp add: limit_ids_def)
      from repeated_not_distinct_filter [OF ij(1) len eq, of "\<lambda>x. x \<noteq> 0", OF this]
      have "\<not> unique (repairLimits R)" by (simp add: unique_iff)
      then show ?thesis by (simp add: Repair_config_error_def)
    qed
  qed
  have r2: "\<forall>e. Repair_config_error R = Some e \<longrightarrow>
         Repair R revs =
           (if revs = [] then
              Some \<lparr>nodes = [], hashes = [], repair_err = Some e, upload_dials = [],
                    encoded = False\<rparr>
            else None)"
    by (simp add: Repair_def)
  from g1 g2 r1 r2 show ?thesis by blast
qed

section \<open>The upload coordinator on concrete runs\<close>

lemmas repair_demo_defs = demo_upload_def run_upload_def demo_zero_ids_def run_zero_ids_def
  demo_repair_def accepting_node_def failing_node_def demo_limit_def demo_order_limit_def

lemmas repair_model_defs = Repair_def Repair_exec_def Repair_config_error_def unique_def
  limit_ids_def Repair_init_def Repair_finished_def Repair_return_def putPiece_def cancel_def
  IsCanceled_def Error_New_def Let_def

text \<open>C6 on the run of four slots.\<close>

theorem Repair_error_iff_no_success_witness:
  "\<exists>r s. Repair demo_upload run_upload = Some r \<and> Repair_exec demo_upload run_upload = Some s
      \<and> ctxErr s = None \<and> repair_err r = None
      \<and> count_cat demo_upload Succeeded (infos s) \<noteq> 0
      \<and> nodes r = successfulNodes s \<and> hashes r = successfulHashes s"
proof -
  have "map_option repair_err (Repair demo_upload run_upload) = Some None"
    by (simp add: repair_demo_defs repair_model_defs)
  then obtain r where r: "Repair demo_upload run_upload = Some r" "repair_err r = None"
    by blast
  have "map_option ctxErr (Repair_exec demo_upload run_upload) = Some None"
    by (simp add: repair_demo_defs repair_model_defs)
  then obtain s where s: "Repair_exec demo_upload run_upload = Some s" "ctxErr s = None"
    by blast
  have c: "Repair_config_error demo_upload = None"
    by (simp add: repair_demo_defs repair_model_defs)
  have l: "length (repairLimits demo_upload) < 2 ^ 32"
    by (simp add: repair_demo_defs)
  from Repair_error_iff_no_success [OF c l]
  have "(repair_err r \<noteq> None) = (count_cat demo_upload Succeeded (infos s) = 0)
        \<and> (count_cat demo_upload Succeeded (infos s) \<noteq> 0 \<longrightarrow>
              repair_err r = None \<and> nodes r = successfulNodes s
              \<and> hashes r = successfulHashes s)"
    using r(1) s by blast
  with r s show ?thesis by auto
qed

text \<open>C8 on the run of four slots: one success, one failure, one cancellation and a
  nil slot.\<close>

theorem Repair_slot_accounting_witness:
  "\<exists>s. Repair_exec demo_upload run_upload = Some s \<and> Repair_finished demo_upload s
      \<and> successfulCount s = 1 \<and> failureCount s = 1 \<and> cancellationCount s = 1
      \<and> nonNilCount (repairLimits demo_upload) = 3
      \<and> map info_i (infos s) = [3, 0, 1, 2]
      \<and> successfulNodes s ! 1 = None \<and> successfulHashes s ! 1 = None
      \<and> successfulNodes s ! 0 \<noteq> None \<and> successfulNodes s ! 2 = None"
proof -
  have "map_option (\<lambda>s. (Repair_finished demo_upload s, infos s))
          (Repair_exec demo_upload run_upload) =
        Some (True,
          [\<lparr>info_i = 3, info_err = Some (Plain ''connection reset''), info_hash = None\<rparr>,
           \<lparr>info_i = 0, info_err = None,
             info_hash = Some \<lparr>HashPieceId = 11, Hash = [7, 2], Signature = [7, 7, 2]\<rparr>\<rparr>,
           \<lparr>info_i = 1, info_err = None, info_hash = None\<rparr>,
           \<lparr>info_i = 2, info_err = Some (Combined [Canceled, Plain ''connection reset'']),
             info_hash = None\<rparr>])"
    by (simp add: repair_demo_defs repair_model_defs)
  then obtain s where s: "Repair_exec demo_upload run_upload = Some s"
    "Repair_finished demo_upload s"
    "infos s =
          [\<lparr>info_i = 3, info_err = Some (Plain ''connection reset''), info_hash = None\<rparr>,
           \<lparr>info_i = 0, info_err = None,
             info_hash = Some \<lparr>HashPieceId = 11, Hash = [7, 2], Signature = [7, 7, 2]\<rparr>\<rparr>,
           \<lparr>info_i = 1, info_err = None, info_hash = None\<rparr>,
           \<lparr>info_i = 2, info_err = Some (Combined [Canceled, Plain ''connection reset'']),
             info_hash = None\<rparr>]"
    by auto
  have lims: "repairLimits demo_upload =
      [Some (demo_limit 1), None, Some (demo_limit 2), Some (demo_limit 3)]"
    by (simp add: demo_upload_def demo_repair_def)
  from Repair_slot_accounting [OF s(1,2)] s(3) lims
  show ?thesis
    by (intro exI [of _ s])
       (auto simp: s(1,2) count_cat_def categorize_def IsCanceled_def node_of_def)
qed

text \<open>C9 on the upload of slot 2 of that run, which fails after the success threshold
  cancelled the uploads.\<close>

theorem putPiece_cancelled_upload_witness:
  "\<exists>s s' err. Repair_exec demo_upload
          [PutPiece 3 failing_node, PutPiece 0 accepting_node, PutPiece 1 accepting_node,
           Receive, Receive, Receive] = Some s
      \<and> psCtxErr s = Some Canceled
      \<and> Repair_step demo_upload s (PutPiece 2 failing_node) = Some s'
      \<and> info_err (last (infos s')) = Some err
      \<and> errors_Is err Canceled \<and> IsCanceled err"
proof -
  let ?pre = "[PutPiece 3 failing_node, PutPiece 0 accepting_node, PutPiece 1 accepting_node,
           Receive, Receive, Receive]"
  have "map_option (\<lambda>s. (psCtxErr s, Repair_step demo_upload s (PutPiece 2 failing_node) \<noteq> None))
          (Repair_exec demo_upload ?pre) = Some (Some Canceled, True)"
    by (simp add: repair_demo_defs repair_model_defs)
  then obtain s s' where s: "Repair_exec demo_upload ?pre = Some s" "psCtxErr s = Some Canceled"
    "Repair_step demo_upload s (PutPiece 2 failing_node) = Some s'"
    by auto
  have l: "repairLimits demo_upload ! 2 = Some (demo_limit 2)"
    by (simp add: demo_upload_def demo_repair_def)
  have e: "put_dial_err failing_node = None"
    "upload_err failing_node = Some (Plain ''connection reset'')"
    by (simp_all add: failing_node_def accepting_node_def)
  from putPiece_cancelled_upload [OF s(3,2) l e] s show ?thesis
    by (intro exI [of _ s] exI [of _ s']) auto
qed

text \<open>
  C7 as stated fails: two non-nil slots carry the same node ID, the zero ID, and Repair
  does not reject the request; it dials both and returns without error.
\<close>

theorem Repair_accepts_repeated_zero_id:
  "repairLimits demo_zero_ids ! 0 = Some (demo_limit 0)
   \<and> repairLimits demo_zero_ids ! 1 = Some (demo_limit 0)
   \<and> Repair_config_error demo_zero_ids = None
   \<and> map_option repair_err (Repair demo_zero_ids run_zero_ids) = Some None
   \<and> map_option upload_dials (Repair demo_zero_ids run_zero_ids)
       = Some [(0, ''node:7777''), (0, ''node:7777'')]"
  by (simp add: repair_demo_defs repair_model_defs)

text \<open>C7, as the code has it, on a Get with one limit of three, a Get with one non-nil
  limit of two required, and a Repair with a repeated node ID 1.\<close>

theorem config_errors_before_network_witness:
  "Get (demo_get [Some (demo_limit 1)]) [] =
     Some \<lparr>stream = None, failed = [],
           get_err = Some (Error_New
             ''number of limits slice (%d) does not match total count (%d) of erasure scheme''),
           dials = []\<rparr>
   \<and> Get (demo_get [Some (demo_limit 1), None, None]) [] =
     Some \<lparr>stream = None, failed = [],
           get_err = Some (Error_New
             ''number of non-nil limits (%d) is less than required count (%d) of erasure scheme''),
           dials = []\<rparr>
   \<and> Repair (demo_repair [Some (demo_limit 1), Some (demo_limit 1)]) [] =
     Some \<lparr>nodes = [], hashes = [],
           repair_err = Some (Error_New ''duplicated nodes are not allowed''),
           upload_dials = [], encoded = False\<rparr>"
proof -
  let ?G1 = "demo_get [Some (demo_limit 1)]"
  let ?G2 = "demo_get [Some (demo_limit 1), None, None]"
  let ?R = "demo_repair [Some (demo_limit 1), Some (demo_limit 1)]"
  have g1: "Get_config_error ?G1 = Some (Error_New
             ''number of limits slice (%d) does not match total count (%d) of erasure scheme'')"
    by (simp add: Get_config_error_def demo_get_def)
  have g2: "Get_config_error ?G2 = Some (Error_New
             ''number of non-nil limits (%d) is less than required count (%d) of erasure scheme'')"
    by (simp add: Get_config_error_def demo_get_def)
  have r: "Repair_config_error ?R = Some (Error_New ''duplicated nodes are not allowed'')"
    by (simp add: repair_demo_defs repair_model_defs)
  from config_errors_before_network [where G = ?G1 and evs = "[]" and R = ?R and revs = "[]"]
       config_errors_before_network [where G = ?G2 and evs = "[]" and R = ?R and revs = "[]"]
       g1 g2 r
  show ?thesis by simp
qed

end
